theory Spec2Isabelle
  imports Main "HOL-Library.List_Lexorder" "HOL-Library.Multiset" "HOL-Library.Sublist"
begin

section \<open>Python strings\<close>

text \<open>
  A Python \<open>str\<close> is a sequence of Unicode code points. A code point is a natural
  number, so \<open>length\<close> counts what Python's \<open>len\<close> counts and the order on strings
  (the lexicographic order of \<open>HOL-Library.List_Lexorder\<close>) is Python's \<open><\<close> on
  \<open>str\<close>. The literals of the source are ASCII; \<open>u\<close> turns one into its code points.
\<close>

type_synonym ustr = "nat list"

definition u :: "string \<Rightarrow> ustr" where
  "u s = map of_char s"

text \<open>
  \<open>str.isspace\<close> on one character, which is also what \<open>\s\<close> matches in a \<open>str\<close>
  pattern of \<open>re\<close>.
\<close>

definition isspace :: "nat \<Rightarrow> bool" where
  "isspace c =
     (c \<in> set [0x9, 0xA, 0xB, 0xC, 0xD, 0x1C, 0x1D, 0x1E, 0x1F, 0x20, 0x85, 0xA0, 0x1680,
               0x2000, 0x2001, 0x2002, 0x2003, 0x2004, 0x2005, 0x2006, 0x2007, 0x2008,
               0x2009, 0x200A, 0x2028, 0x2029, 0x202F, 0x205F, 0x3000])"

definition lstrip :: "(nat \<Rightarrow> bool) \<Rightarrow> ustr \<Rightarrow> ustr" where
  "lstrip p s = dropWhile p s"

definition rstrip :: "(nat \<Rightarrow> bool) \<Rightarrow> ustr \<Rightarrow> ustr" where
  "rstrip p s = rev (dropWhile p (rev s))"

text \<open>\<open>s.strip()\<close>: leading and trailing whitespace removed.\<close>

definition strip :: "ustr \<Rightarrow> ustr" where
  "strip s = rstrip isspace (lstrip isspace s)"

text \<open>
  \<open>s.split(sep, maxsplit)\<close> for a separator of one character: at most \<open>maxsplit\<close>
  cuts, from the left; the last part keeps every further separator.
\<close>

fun split_max :: "nat \<Rightarrow> nat \<Rightarrow> ustr \<Rightarrow> ustr list" where
  "split_max sep 0 s = [s]"
| "split_max sep (Suc n) s =
     (if sep \<in> set s
      then takeWhile (\<lambda>c. c \<noteq> sep) s # split_max sep n (tl (dropWhile (\<lambda>c. c \<noteq> sep) s))
      else [s])"

text \<open>
  \<open>s.split(sep)\<close>, with no limit on the cuts: a string has at most \<open>length s\<close>
  separators.
\<close>

definition split_on :: "nat \<Rightarrow> ustr \<Rightarrow> ustr list" where
  "split_on sep s = split_max sep (length s) s"

definition NUL :: nat where
  "NUL = 0x0"

definition bar :: nat where
  "bar = 0x7C"

section \<open>gather\_links.py: the commit log of one file\<close>

record commit =
  hash :: ustr
  date :: ustr
  message :: ustr

text \<open>
  The body of the loop of \<open>get_file_commit_details\<close> over the entries of the log:
  \<open>commits\<close> is the list built so far, and the result is the list after this entry.
  \<open>entry.split("|", 2)\<close> has at most three parts, so \<open>len(parts) >= 3\<close> holds
  exactly when it has three.
\<close>

definition commit_step :: "commit list \<Rightarrow> ustr \<Rightarrow> commit list" where
  "commit_step commits entry0 =
     (let entry = strip entry0 in
      if entry = [] then commits
      else (case split_max bar 2 entry of
              [h, d, m] \<Rightarrow> commits @ [\<lparr>hash = h, date = d, message = strip m\<rparr>]
            | _ \<Rightarrow> commits))"

text \<open>
  \<open>git_log file_path\<close> is the standard output of
  \<open>git log --format=%H|%aI|%B%x00 --follow -- file_path\<close>, decoded as text; the
  command's exit status is not looked at by the source. The program git is taken to be
  there, so that the command runs.
\<close>

definition get_file_commit_details :: "(ustr \<Rightarrow> ustr) \<Rightarrow> ustr \<Rightarrow> commit list" where
  "get_file_commit_details git_log file_path =
     foldl commit_step [] (split_on NUL (git_log file_path))"

text \<open>
  What git writes for \<open>%aI\<close>, the author date in strict ISO 8601: the date, \<open>T\<close>,
  the time, and the offset from UTC or \<open>Z\<close>. In a shape the letter \<open>d\<close> stands for
  one of the digits 0 to 9 and every other character for itself.
\<close>

fun has_shape :: "ustr \<Rightarrow> ustr \<Rightarrow> bool" where
  "has_shape [] [] = True"
| "has_shape (p # ps) (c # cs) =
     ((if p = 0x64 then 0x30 \<le> c \<and> c \<le> 0x39 else c = p) \<and> has_shape ps cs)"
| "has_shape _ _ = False"

definition iso_timestamp :: "ustr \<Rightarrow> bool" where
  "iso_timestamp s =
     (has_shape (u ''dddd-dd-ddTdd:dd:dd+dd:dd'') s \<or>
      has_shape (u ''dddd-dd-ddTdd:dd:dd-dd:dd'') s \<or>
      has_shape (u ''dddd-dd-ddTdd:dd:ddZ'') s)"

section \<open>Regular expressions\<close>

text \<open>
  Every pattern of the repository is a sequence of literals and greedy character
  classes in which a class never contains the character that has to follow it (or is the
  last item). Backtracking therefore never finds a match that the longest run does not
  give, and each pattern is translated into the function that matches it at the start of
  a string: literals by \<open>lit\<close> (or \<open>ilit\<close> under \<open>re.IGNORECASE\<close>), a
  class\<open>+\<close> by \<open>takeWhile\<close>/\<open>dropWhile\<close> with a check that the run is not empty.
\<close>

fun lit :: "ustr \<Rightarrow> ustr \<Rightarrow> ustr option" where
  "lit [] s = Some s"
| "lit (p # ps) [] = None"
| "lit (p # ps) (c # cs) = (if c = p then lit ps cs else None)"

text \<open>
  \<open>ieq p c\<close>: the character \<open>c\<close> matches the pattern character \<open>p\<close> (a lower-case
  ASCII letter or an uncased character) under \<open>re.IGNORECASE\<close> on a \<open>str\<close> pattern:
  the letter itself, its capital, and the three non-ASCII characters that fold to an
  ASCII letter (dotted capital and dotless small i, long s, the Kelvin sign).
\<close>

definition ieq :: "nat \<Rightarrow> nat \<Rightarrow> bool" where
  "ieq p c =
     (c = p \<or> (0x61 \<le> p \<and> p \<le> 0x7A \<and> c + 0x20 = p)
      \<or> (p = 0x69 \<and> (c = 0x130 \<or> c = 0x131))
      \<or> (p = 0x73 \<and> c = 0x17F)
      \<or> (p = 0x6B \<and> c = 0x212A))"

fun ilit :: "ustr \<Rightarrow> ustr \<Rightarrow> ustr option" where
  "ilit [] s = Some s"
| "ilit (p # ps) [] = None"
| "ilit (p # ps) (c # cs) = (if ieq p c then ilit ps cs else None)"

text \<open>\<open>re.search\<close>: the match at the leftmost position that has one.\<close>

fun re_search :: "(ustr \<Rightarrow> 'a option) \<Rightarrow> ustr \<Rightarrow> 'a option" where
  "re_search m [] = m []"
| "re_search m (c # cs) = (case m (c # cs) of Some r \<Rightarrow> Some r | None \<Rightarrow> re_search m cs)"

text \<open>
  \<open>re.findall\<close> and \<open>re.sub\<close> scan from the left for matches that do not overlap.
  The matcher \<open>m\<close> returns the matched text (a prefix of the string) with the text of
  group 1. After an empty match the scan moves on by one character; the patterns here
  match no empty text.
\<close>

function re_findall :: "(ustr \<Rightarrow> (ustr \<times> ustr) option) \<Rightarrow> ustr \<Rightarrow> ustr list" where
  "re_findall m [] = []"
| "re_findall m (c # cs) =
     (case m (c # cs) of
        Some (mt, g) \<Rightarrow> mt # re_findall m (if mt = [] then cs else drop (length mt) (c # cs))
      | None \<Rightarrow> re_findall m cs)"
  by pat_completeness auto
termination
  by (relation "measure (\<lambda>(m, s). length s)") auto

function re_sub :: "(ustr \<Rightarrow> (ustr \<times> ustr) option) \<Rightarrow> (ustr \<Rightarrow> ustr) \<Rightarrow> ustr \<Rightarrow> ustr" where
  "re_sub m repl [] = []"
| "re_sub m repl (c # cs) =
     (case m (c # cs) of
        Some (mt, g) \<Rightarrow>
          (if mt = [] then repl g @ c # re_sub m repl cs
           else repl g @ re_sub m repl (drop (length mt) (c # cs)))
      | None \<Rightarrow> c # re_sub m repl cs)"
  by pat_completeness auto
termination
  by (relation "measure (\<lambda>(m, repl, s). length s)") auto

text \<open>
  \<open>https?://[cls]+\<close>, with the whole match as group 1: \<open>s?\<close> is followed by
  \<open>:\<close>, so the \<open>s\<close> is taken exactly when it is there.
\<close>

definition opt_s :: "ustr \<Rightarrow> ustr \<times> ustr" where
  "opt_s r = (case r of [] \<Rightarrow> ([], r) | c # cs \<Rightarrow> if c = 0x73 then ([c], cs) else ([], r))"

definition match_url :: "(nat \<Rightarrow> bool) \<Rightarrow> ustr \<Rightarrow> (ustr \<times> ustr) option" where
  "match_url cls s =
     (case lit (u ''http'') s of
        None \<Rightarrow> None
      | Some r1 \<Rightarrow>
          (case lit (u ''://'') (snd (opt_s r1)) of
             None \<Rightarrow> None
           | Some r2 \<Rightarrow>
               if takeWhile cls r2 = [] then None
               else (let mt = u ''http'' @ fst (opt_s r1) @ u ''://'' @ takeWhile cls r2
                     in Some (mt, mt))))"

section \<open>gather\_links.py: URLs, title and description\<close>

text \<open>The class \<open>[^\s<>\"\')(\]\[}{\x00]\<close> of \<open>extract_urls\<close>.\<close>

definition url_char :: "nat \<Rightarrow> bool" where
  \<open>url_char c = (\<not> isspace c \<and> c \<notin> set (u ''<>"')(][}{'') \<and> c \<noteq> NUL)\<close>

definition trailing_punct :: "nat \<Rightarrow> bool" where
  "trailing_punct c = (c \<in> set (u ''.,;:!?''))"

definition extract_urls :: "ustr \<Rightarrow> ustr list" where
  "extract_urls text = map (rstrip trailing_punct) (re_findall (match_url url_char) text)"

datatype error = FileNotFoundError | OSError | UnicodeDecodeError | JSONDecodeError | ValueError

definition bind_err :: "error + 'a \<Rightarrow> ('a \<Rightarrow> error + 'b) \<Rightarrow> error + 'b" where
  "bind_err r f = (case r of Inl e \<Rightarrow> Inl e | Inr x \<Rightarrow> f x)"

text \<open>
  What the gather step reads. \<open>html_files\<close> is \<open>sorted(Path('.').glob('*.html'))\<close>,
  as the names of the files; \<open>git_log\<close> is the output of the git command for a path;
  \<open>read_text p\<close> is what \<open>open(p, 'r', encoding='utf-8')\<close> followed by \<open>read()\<close>
  gives: the text, or the exception raised. \<open>str_title\<close> is \<open>str.title\<close> of the
  Python library.
\<close>

record env =
  html_files :: "ustr list"
  git_log :: "ustr \<Rightarrow> ustr"
  read_text :: "ustr \<Rightarrow> error + ustr"
  str_title :: "ustr \<Rightarrow> ustr"

definition lt :: nat where
  "lt = 0x3C"

definition gt :: nat where
  "gt = 0x3E"

definition amp :: nat where
  "amp = 0x26"

text \<open>\<open><title>([^<]+)</title>\<close> under \<open>re.IGNORECASE\<close>; the result is group 1.\<close>

definition title_match :: "ustr \<Rightarrow> ustr option" where
  "title_match s =
     Option.bind (ilit (u ''<title>'') s) (\<lambda>r.
       if takeWhile (\<lambda>c. c \<noteq> lt) r = [] then None
       else Option.bind (ilit (u ''</title>'') (dropWhile (\<lambda>c. c \<noteq> lt) r)) (\<lambda>_.
         Some (takeWhile (\<lambda>c. c \<noteq> lt) r)))"

text \<open>
  \<open>PurePath.stem\<close> of a path that is a file name, as the glob in the current directory
  gives them: the name without its last suffix.
\<close>

definition rfind :: "nat \<Rightarrow> ustr \<Rightarrow> nat option" where
  "rfind c s =
     (if c \<in> set s then Some (length s - 1 - length (takeWhile (\<lambda>x. x \<noteq> c) (rev s))) else None)"

definition path_stem :: "ustr \<Rightarrow> ustr" where
  "path_stem name =
     (case rfind 0x2E name of
        None \<Rightarrow> name
      | Some i \<Rightarrow> if 0 < i \<and> i + 1 < length name then take i name else name)"

definition replace_char :: "nat \<Rightarrow> nat \<Rightarrow> ustr \<Rightarrow> ustr" where
  "replace_char a b s = map (\<lambda>c. if c = a then b else c) s"

text \<open>
  The \<open>try\<close> block of \<open>extract_title\<close>: \<open>Inl\<close> is an exception raised in it,
  \<open>Inr (Some t)\<close> a value returned from it, \<open>Inr None\<close> its end reached.
\<close>

definition extract_title_try :: "env \<Rightarrow> ustr \<Rightarrow> error + ustr option" where
  "extract_title_try e html_path =
     bind_err (read_text e html_path) (\<lambda>content.
       case re_search title_match content of
         Some g \<Rightarrow> Inr (Some (strip g))
       | None \<Rightarrow> Inr None)"

definition extract_title :: "env \<Rightarrow> ustr \<Rightarrow> error + ustr" where
  "extract_title e html_path =
     (case extract_title_try e html_path of
        Inr (Some t) \<Rightarrow> Inr t
      | _ \<Rightarrow> Inr (str_title e (replace_char 0x5F 0x20 (replace_char 0x2D 0x20 (path_stem html_path)))))"

text \<open>\<open>\s+\<close> and \<open>["\']\<close>, each returning the text after the match.\<close>

definition spaces1 :: "ustr \<Rightarrow> ustr option" where
  "spaces1 s = (if takeWhile isspace s = [] then None else Some (dropWhile isspace s))"

definition is_quote :: "nat \<Rightarrow> bool" where
  "is_quote c = (c = 0x22 \<or> c = 0x27)"

definition quote1 :: "ustr \<Rightarrow> ustr option" where
  "quote1 s = (case s of [] \<Rightarrow> None | c # cs \<Rightarrow> if is_quote c then Some cs else None)"

text \<open>
  \<open><meta\s+name=["\']description["\']\s+content=["\']([^"\']+)["\']\<close> under
  \<open>re.IGNORECASE\<close>; the result is group 1.
\<close>

definition meta_match :: "ustr \<Rightarrow> ustr option" where
  "meta_match s =
     Option.bind (ilit (u ''<meta'') s) (\<lambda>r.
     Option.bind (spaces1 r) (\<lambda>r.
     Option.bind (ilit (u ''name='') r) (\<lambda>r.
     Option.bind (quote1 r) (\<lambda>r.
     Option.bind (ilit (u ''description'') r) (\<lambda>r.
     Option.bind (quote1 r) (\<lambda>r.
     Option.bind (spaces1 r) (\<lambda>r.
     Option.bind (ilit (u ''content='') r) (\<lambda>r.
     Option.bind (quote1 r) (\<lambda>r.
       if takeWhile (\<lambda>c. \<not> is_quote c) r = [] then None
       else Option.bind (quote1 (dropWhile (\<lambda>c. \<not> is_quote c) r)) (\<lambda>_.
         Some (takeWhile (\<lambda>c. \<not> is_quote c) r)))))))))))"

text \<open>\<open><p[^>]*>([^<]+)</p>\<close> under \<open>re.IGNORECASE\<close>; the result is group 1.\<close>

definition p_match :: "ustr \<Rightarrow> ustr option" where
  "p_match s =
     Option.bind (ilit (u ''<p'') s) (\<lambda>r.
     Option.bind (lit [gt] (dropWhile (\<lambda>c. c \<noteq> gt) r)) (\<lambda>r.
       if takeWhile (\<lambda>c. c \<noteq> lt) r = [] then None
       else Option.bind (ilit (u ''</p>'') (dropWhile (\<lambda>c. c \<noteq> lt) r)) (\<lambda>_.
         Some (takeWhile (\<lambda>c. c \<noteq> lt) r))))"

text \<open>The \<open>try\<close> block of \<open>extract_description\<close>, read as that of \<open>extract_title\<close>.\<close>

definition extract_description_try :: "env \<Rightarrow> ustr \<Rightarrow> error + ustr option" where
  "extract_description_try e html_path =
     bind_err (read_text e html_path) (\<lambda>content.
       case re_search meta_match content of
         Some g \<Rightarrow> Inr (Some (strip g))
       | None \<Rightarrow>
           (case re_search p_match content of
              Some g \<Rightarrow> Inr (Some (take 200 (strip g)))
            | None \<Rightarrow> Inr None))"

text \<open>\<open>except Exception: pass\<close>, then \<open>return ""\<close>.\<close>

definition extract_description :: "env \<Rightarrow> ustr \<Rightarrow> error + ustr" where
  "extract_description e html_path =
     (case extract_description_try e html_path of
        Inr (Some d) \<Rightarrow> Inr d
      | _ \<Rightarrow> Inr [])"

section \<open>gather\_links.py: the tool records\<close>

text \<open>The field \<open>file_path\<close> is the key \<open>'file'\<close> of the source's dictionary.\<close>

record tool =
  file_path :: ustr
  slug :: ustr
  title :: ustr
  description :: ustr
  commits :: "commit list"
  urls :: "ustr list"
  created :: "ustr option"
  updated :: "ustr option"

text \<open>
  The files the three steps write and read back. \<open>Json ts\<close> is a file that the
  build steps read as the list \<open>ts\<close> of tool records: the file that
  \<open>json.dump(ts)\<close> wrote, and for the empty list also a file holding another JSON
  value that a \<open>for\<close> loop runs over zero times and whose \<open>len\<close> is 0 (\<open>{}\<close>
  or \<open>""\<close>). \<open>Text s\<close> is any other file, with the text \<open>s\<close>. Opening a file
  for writing is taken to succeed.
\<close>

datatype file_data = Text ustr | Json "tool list"

type_synonym fs = "ustr \<rightharpoonup> file_data"

definition generated_names :: "ustr list" where
  "generated_names = [u ''index.html'', u ''colophon.html'', u ''by-month.html'']"

text \<open>
  The body of the loop of \<open>main\<close> over \<open>html_files\<close>: \<open>tools\<close> is the list built
  so far. A path of the glob in the current directory is the file's name.
  \<open>list(set(all_urls))\<close> keeps one copy of each URL, in an order Python does not
  specify (it changes with the hash seed); the model fixes one order, that of the last
  occurrences, and nothing proved below speaks of the order.
\<close>

definition gather_step :: "env \<Rightarrow> tool list \<Rightarrow> ustr \<Rightarrow> error + tool list" where
  "gather_step e tools path =
     (if path \<in> set generated_names then Inr tools
      else (let cs = get_file_commit_details (git_log e) path in
        if cs = [] then Inr tools
        else (let all_urls = concat (map (\<lambda>c. extract_urls (message c)) cs) in
          bind_err (extract_title e path) (\<lambda>t.
          bind_err (extract_description e path) (\<lambda>d.
            Inr (tools @
              [\<lparr>file_path = path,
                slug = path_stem path,
                title = t,
                description = d,
                commits = cs,
                urls = remdups all_urls,
                created = (if cs \<noteq> [] then Some (date (last cs)) else None),
                updated = (if cs \<noteq> [] then Some (date (hd cs)) else None)\<rparr>]))))))"

fun gather_loop :: "env \<Rightarrow> tool list \<Rightarrow> ustr list \<Rightarrow> error + tool list" where
  "gather_loop e tools [] = Inr tools"
| "gather_loop e tools (p # ps) =
     bind_err (gather_step e tools p) (\<lambda>tools'. gather_loop e tools' ps)"

text \<open>The key of the sort, \<open>x['updated'] or ''\<close>.\<close>

definition updated_key :: "tool \<Rightarrow> ustr" where
  "updated_key x = (case updated x of None \<Rightarrow> [] | Some s \<Rightarrow> if s = [] then [] else s)"

text \<open>
  \<open>list.sort(key=k, reverse=True)\<close>: the list is reversed, sorted by a stable sort in
  ascending order of the key, and reversed again.
\<close>

definition sort_reverse :: "('a \<Rightarrow> ustr) \<Rightarrow> 'a list \<Rightarrow> 'a list" where
  "sort_reverse k xs = rev (sort_key k (rev xs))"

text \<open>\<open>str(n)\<close> for a length.\<close>

fun str_nat :: "nat \<Rightarrow> ustr" where
  "str_nat n = (if n < 10 then [0x30 + n] else str_nat (n div 10) @ [0x30 + n mod 10])"

definition gathered_links_json :: ustr where
  "gathered_links_json = u ''gathered_links.json''"

definition gather_report :: "tool list \<Rightarrow> ustr list" where
  "gather_report tools =
     (u ''Gathered data for '' @ str_nat (length tools) @ u '' tool(s)'') #
     map (\<lambda>t. u ''  - '' @ title t @ u '' ('' @ str_nat (length (commits t)) @ u '' commits)'') tools"

text \<open>
  \<open>main\<close> of gather\_links.py: the files after the run and the lines printed, or the
  exception that ended it.
\<close>

definition main :: "env \<Rightarrow> fs \<Rightarrow> error + (fs \<times> ustr list)" where
  "main e files =
     bind_err (gather_loop e [] (html_files e)) (\<lambda>tools0.
       let tools = sort_reverse updated_key tools0
       in Inr (files(gathered_links_json \<mapsto> Json tools), gather_report tools))"

section \<open>The build steps: shared parts\<close>

definition GITHUB_REPO :: ustr where
  "GITHUB_REPO = u ''bmadhusu/tools''"

text \<open>
  \<open>html.escape(s)\<close> with \<open>quote=True\<close>: the library replaces \<open>&\<close> first and then
  the four other characters, which is the same as replacing each character on its own.
\<close>

definition escape_char :: "nat \<Rightarrow> ustr" where
  "escape_char c =
     (if c = amp then u ''&amp;''
      else if c = lt then u ''&lt;''
      else if c = gt then u ''&gt;''
      else if c = 0x22 then u ''&quot;''
      else if c = 0x27 then u ''&#x27;''
      else [c])"

definition html_escape :: "ustr \<Rightarrow> ustr" where
  "html_escape s = concat (map escape_char s)"

text \<open>
  \<open>datetime.fromisoformat\<close> and \<open>datetime.strftime\<close> belong to the Python library;
  the build steps take them as they are, each returning its value or the exception it
  raises.
\<close>

record 'dt datetime_lib =
  fromisoformat :: "ustr \<Rightarrow> error + 'dt"
  strftime :: "'dt \<Rightarrow> ustr \<Rightarrow> error + ustr"

text \<open>
  \<open>format_date\<close> of both build scripts; they differ in the format only, which is
  \<open>'%b %d, %Y'\<close> in build\_index.py and \<open>'%B %d, %Y'\<close> in build\_colophon.py.
  \<open>except Exception\<close> returns the argument.
\<close>

definition format_date :: "'dt datetime_lib \<Rightarrow> ustr \<Rightarrow> ustr \<Rightarrow> error + ustr" where
  "format_date lib fmt iso_date =
     (case bind_err
             (fromisoformat lib
                (concat (map (\<lambda>c. if c = 0x5A then u ''+00:00'' else [c]) iso_date)))
             (\<lambda>dt. strftime lib dt fmt) of
        Inr s \<Rightarrow> Inr s
      | Inl _ \<Rightarrow> Inr iso_date)"

text \<open>A \<open>for\<close> loop that appends one rendered item per element, ended by the first exception.\<close>

fun map_err :: "('a \<Rightarrow> error + 'b) \<Rightarrow> 'a list \<Rightarrow> error + 'b list" where
  "map_err f [] = Inr []"
| "map_err f (x # xs) = bind_err (f x) (\<lambda>y. bind_err (map_err f xs) (\<lambda>ys. Inr (y # ys)))"

definition not_found_message :: ustr where
  "not_found_message = u ''Error: gathered_links.json not found. Run gather_links.py first.''"

section \<open>build\_index.py\<close>

definition index_description :: "tool \<Rightarrow> ustr" where
  "index_description t =
     (if description t \<noteq> [] then html_escape (description t) else u ''A useful tool.'')"

definition index_updated :: "'dt datetime_lib \<Rightarrow> tool \<Rightarrow> error + ustr" where
  "index_updated lib t =
     (case updated t of
        None \<Rightarrow> Inr []
      | Some s \<Rightarrow> if s \<noteq> [] then format_date lib (u ''%b %d, %Y'') s else Inr [])"

definition tool_card :: "'dt datetime_lib \<Rightarrow> tool \<Rightarrow> error + ustr" where
  \<open>tool_card lib t =
     bind_err (index_updated lib t) (\<lambda>upd. Inr (
       u ''
            <article class="tool-card">
                <h2><a href="'' @
       slug t @
       u ''.html">'' @
       html_escape (title t) @
       u ''</a></h2>
                <p class="description">'' @
       index_description t @
       u ''</p>
                <div class="meta">
                    <span class="updated">Updated '' @
       upd @
       u ''</span>
                    <a href="colophon.html#'' @
       slug t @
       u ''" class="history-link">History</a>
                </div>
            </article>
        ''))\<close>

definition index_page :: "tool list \<Rightarrow> ustr list \<Rightarrow> ustr" where
  \<open>index_page tools tool_cards =
     u ''<!DOCTYPE html>
<html lang="en">
<head>
    <meta charset="UTF-8">
    <meta name="viewport" content="width=device-width, initial-scale=1.0">
    <title>Tools</title>
    <style>
        :root {
            --bg: #ffffff;
            --text: #1a1a1a;
            --muted: #666666;
            --border: #e5e5e5;
            --link: #0066cc;
            --link-hover: #0052a3;
            --card-bg: #fafafa;
            --accent: #6366f1;
        }

        @media (prefers-color-scheme: dark) {
            :root {
                --bg: #1a1a1a;
                --text: #e5e5e5;
                --muted: #999999;
                --border: #333333;
                --link: #66b3ff;
                --link-hover: #99ccff;
                --card-bg: #242424;
                --accent: #818cf8;
            }
        }

        * {
            box-sizing: border-box;
        }

        body {
            font-family: -apple-system, BlinkMacSystemFont, 'Segoe UI', Roboto, Oxygen, Ubuntu, sans-serif;
            line-height: 1.6;
            max-width: 900px;
            margin: 0 auto;
            padding: 2rem 1rem;
            background: var(--bg);
            color: var(--text);
        }

        header {
            margin-bottom: 2rem;
            padding-bottom: 1.5rem;
            border-bottom: 2px solid var(--accent);
        }

        header h1 {
            margin: 0 0 0.5rem 0;
            font-size: 2rem;
        }

        header p {
            margin: 0;
            color: var(--muted);
        }

        nav {
            margin-top: 1rem;
        }

        nav a {
            margin-right: 1rem;
            color: var(--link);
            text-decoration: none;
        }

        nav a:hover {
            text-decoration: underline;
        }

        .tools-grid {
            display: grid;
            gap: 1.5rem;
        }

        .tool-card {
            background: var(--card-bg);
            border: 1px solid var(--border);
            border-radius: 8px;
            padding: 1.5rem;
        }

        .tool-card h2 {
            margin: 0 0 0.5rem 0;
            font-size: 1.25rem;
        }

        .tool-card h2 a {
            color: var(--text);
            text-decoration: none;
        }

        .tool-card h2 a:hover {
            color: var(--link);
        }

        .tool-card .description {
            margin: 0 0 1rem 0;
            color: var(--muted);
            font-size: 0.95rem;
        }

        .tool-card .meta {
            display: flex;
            justify-content: space-between;
            align-items: center;
            font-size: 0.85rem;
        }

        .tool-card .updated {
            color: var(--muted);
        }

        .tool-card .history-link {
            color: var(--link);
            text-decoration: none;
        }

        .tool-card .history-link:hover {
            text-decoration: underline;
        }

        footer {
            margin-top: 3rem;
            padding-top: 1.5rem;
            border-top: 1px solid var(--border);
            color: var(--muted);
            font-size: 0.9rem;
        }

        @media (max-width: 600px) {
            body {
                padding: 1rem;
            }

            header h1 {
                font-size: 1.5rem;
            }
        }
    </style>
</head>
<body>
    <header>
        <h1>Tools</h1>
        <p>A collection of '' @
     str_nat (length tools) @
     u '' useful tool'' @
     (if length tools \<noteq> 1 then u ''s'' else []) @
     u '' built with AI assistance.</p>
        <nav>
            <a href="colophon.html">Colophon</a>
            <a href="https://github.com/'' @
     GITHUB_REPO @
     u ''">GitHub</a>
        </nav>
    </header>

    <main class="tools-grid">
        '' @
     concat tool_cards @
     u ''
    </main>

    <footer>
        <p>
            View the <a href="colophon.html">colophon</a> for development history
            and AI session transcripts.
        </p>
    </footer>
</body>
</html>
''\<close>

definition index_html :: ustr where
  "index_html = u ''index.html''"

text \<open>
  \<open>build_index\<close>: the files after the run and the lines printed, or the exception that
  ended it. A \<open>Text\<close> file ends the run with an exception, of \<open>json.load\<close> or of
  the first access to a record; the model has the one name \<open>JSONDecodeError\<close> for
  them.
\<close>

definition build_index :: "'dt datetime_lib \<Rightarrow> fs \<Rightarrow> error + (fs \<times> ustr list)" where
  "build_index lib files =
     (case files gathered_links_json of
        None \<Rightarrow> Inr (files, [not_found_message])
      | Some (Text s) \<Rightarrow> Inl JSONDecodeError
      | Some (Json tools) \<Rightarrow>
          bind_err (map_err (tool_card lib) tools) (\<lambda>tool_cards.
            Inr (files(index_html \<mapsto> Text (index_page tools tool_cards)),
                 [u ''Built index.html with '' @ str_nat (length tools) @ u '' tool(s)''])))"

section \<open>build\_colophon.py\<close>

text \<open>The class \<open>[^\s<>&]\<close> of the URL pattern, and the replacement for a URL.\<close>

definition link_char :: "nat \<Rightarrow> bool" where
  "link_char c = (\<not> isspace c \<and> c \<noteq> lt \<and> c \<noteq> gt \<and> c \<noteq> amp)"

definition url_anchor :: "ustr \<Rightarrow> ustr" where
  \<open>url_anchor g = u ''<a href="'' @ g @ u ''" target="_blank" rel="noopener">'' @ g @ u ''</a>''\<close>

text \<open>
  \<open>\d\<close> in a \<open>str\<close> pattern: the decimal digits of Unicode (category Nd), here as the
  ranges of Unicode 14.
\<close>

definition nd_ranges :: "(nat \<times> nat) list" where
  "nd_ranges =
       [(0x30, 0x39), (0x660, 0x669), (0x6F0, 0x6F9), (0x7C0, 0x7C9),
        (0x966, 0x96F), (0x9E6, 0x9EF), (0xA66, 0xA6F), (0xAE6, 0xAEF),
        (0xB66, 0xB6F), (0xBE6, 0xBEF), (0xC66, 0xC6F), (0xCE6, 0xCEF),
        (0xD66, 0xD6F), (0xDE6, 0xDEF), (0xE50, 0xE59), (0xED0, 0xED9),
        (0xF20, 0xF29), (0x1040, 0x1049), (0x1090, 0x1099), (0x17E0, 0x17E9),
        (0x1810, 0x1819), (0x1946, 0x194F), (0x19D0, 0x19D9), (0x1A80, 0x1A89),
        (0x1A90, 0x1A99), (0x1B50, 0x1B59), (0x1BB0, 0x1BB9), (0x1C40, 0x1C49),
        (0x1C50, 0x1C59), (0xA620, 0xA629), (0xA8D0, 0xA8D9), (0xA900, 0xA909),
        (0xA9D0, 0xA9D9), (0xA9F0, 0xA9F9), (0xAA50, 0xAA59), (0xABF0, 0xABF9),
        (0xFF10, 0xFF19), (0x104A0, 0x104A9), (0x10D30, 0x10D39), (0x11066, 0x1106F),
        (0x110F0, 0x110F9), (0x11136, 0x1113F), (0x111D0, 0x111D9), (0x112F0, 0x112F9),
        (0x11450, 0x11459), (0x114D0, 0x114D9), (0x11650, 0x11659), (0x116C0, 0x116C9),
        (0x11730, 0x11739), (0x118E0, 0x118E9), (0x11950, 0x11959), (0x11C50, 0x11C59),
        (0x11D50, 0x11D59), (0x11DA0, 0x11DA9), (0x16A60, 0x16A69), (0x16AC0, 0x16AC9),
        (0x16B50, 0x16B59), (0x1D7CE, 0x1D7FF), (0x1E140, 0x1E149), (0x1E2F0, 0x1E2F9),
        (0x1E950, 0x1E959), (0x1FBF0, 0x1FBF9)]"

definition is_digit :: "nat \<Rightarrow> bool" where
  "is_digit c = list_ex (\<lambda>(lo, hi). lo \<le> c \<and> c \<le> hi) nd_ranges"

text \<open>\<open>#(\d+)\<close>, and the replacement for an issue reference.\<close>

definition match_issue :: "ustr \<Rightarrow> (ustr \<times> ustr) option" where
  "match_issue s =
     (case s of
        [] \<Rightarrow> None
      | c # cs \<Rightarrow>
          if c = 0x23 \<and> takeWhile is_digit cs \<noteq> []
          then Some (c # takeWhile is_digit cs, takeWhile is_digit cs)
          else None)"

definition issue_anchor :: "ustr \<Rightarrow> ustr" where
  \<open>issue_anchor g =
     u ''<a href="https://github.com/'' @ GITHUB_REPO @ u ''/issues/'' @ g @ u ''">#'' @ g @ u ''</a>''\<close>

definition br_newline :: "nat \<Rightarrow> ustr" where
  "br_newline c = (if c = 0xA then u ''<br>'' @ [0xA] else [c])"

definition format_commit_message :: "ustr \<Rightarrow> ustr" where
  "format_commit_message msg =
     (let escaped = html_escape msg;
          escaped = re_sub (match_url link_char) url_anchor escaped;
          escaped = re_sub match_issue issue_anchor escaped;
          escaped = concat (map br_newline escaped)
      in escaped)"

definition commit_url :: "commit \<Rightarrow> ustr" where
  "commit_url c = u ''https://github.com/'' @ GITHUB_REPO @ u ''/commit/'' @ hash c"

definition commit_html :: "'dt datetime_lib \<Rightarrow> commit \<Rightarrow> error + ustr" where
  \<open>commit_html lib c =
     bind_err (format_date lib (u ''%B %d, %Y'') (date c)) (\<lambda>d. Inr (
       u ''
                <div class="commit">
                    <div class="commit-header">
                        <a href="'' @
       commit_url c @
       u ''" target="_blank" rel="noopener" class="commit-hash">'' @
       take 7 (hash c) @
       u ''</a>
                        <span class="commit-date">'' @
       d @
       u ''</span>
                    </div>
                    <div class="commit-message">'' @
       format_commit_message (message c) @
       u ''</div>
                </div>
            ''))\<close>

definition tool_url :: "tool \<Rightarrow> ustr" where
  "tool_url t = u ''https://github.com/'' @ GITHUB_REPO @ u ''/blob/main/'' @ file_path t"

definition colophon_description :: "tool \<Rightarrow> ustr" where
  "colophon_description t = (if description t \<noteq> [] then html_escape (description t) else [])"

definition tool_section :: "'dt datetime_lib \<Rightarrow> tool \<Rightarrow> error + ustr" where
  \<open>tool_section lib t =
     bind_err (map_err (commit_html lib) (commits t)) (\<lambda>commits_html. Inr (
       u ''
            <section class="tool" id="'' @
       slug t @
       u ''">
                <h2>
                    <a href="#'' @
       slug t @
       u ''" class="anchor">#</a>
                    <a href="'' @
       slug t @
       u ''.html">'' @
       html_escape (title t) @
       u ''</a>
                </h2>
                '' @
       (if colophon_description t \<noteq> []
        then u ''<p class="description">'' @ colophon_description t @ u ''</p>'' else []) @
       u ''
                <p class="meta">
                    <a href="'' @
       tool_url t @
       u ''" target="_blank" rel="noopener">View source on GitHub</a>
                </p>
                <details class="commits">
                    <summary>Development history ('' @
       str_nat (length (commits t)) @
       u '' commit'' @
       (if length (commits t) \<noteq> 1 then u ''s'' else []) @
       u '')</summary>
                    <div class="commits-list">
                        '' @
       concat commits_html @
       u ''
                    </div>
                </details>
            </section>
        ''))\<close>

definition colophon_page :: "tool list \<Rightarrow> ustr list \<Rightarrow> ustr" where
  \<open>colophon_page tools tool_sections =
     u ''<!DOCTYPE html>
<html lang="en">
<head>
    <meta charset="UTF-8">
    <meta name="viewport" content="width=device-width, initial-scale=1.0">
    <title>Colophon - Tools</title>
    <style>
        :root {
            --bg: #ffffff;
            --text: #1a1a1a;
            --muted: #666666;
            --border: #e5e5e5;
            --link: #0066cc;
            --link-hover: #0052a3;
            --code-bg: #f5f5f5;
            --accent: #6366f1;
        }

        @media (prefers-color-scheme: dark) {
            :root {
                --bg: #1a1a1a;
                --text: #e5e5e5;
                --muted: #999999;
                --border: #333333;
                --link: #66b3ff;
                --link-hover: #99ccff;
                --code-bg: #2a2a2a;
                --accent: #818cf8;
            }
        }

        * {
            box-sizing: border-box;
        }

        body {
            font-family: -apple-system, BlinkMacSystemFont, 'Segoe UI', Roboto, Oxygen, Ubuntu, sans-serif;
            line-height: 1.6;
            max-width: 900px;
            margin: 0 auto;
            padding: 2rem 1rem;
            background: var(--bg);
            color: var(--text);
        }

        header {
            margin-bottom: 3rem;
            padding-bottom: 1.5rem;
            border-bottom: 2px solid var(--accent);
        }

        header h1 {
            margin: 0 0 0.5rem 0;
            font-size: 2rem;
        }

        header p {
            margin: 0;
            color: var(--muted);
        }

        nav {
            margin-top: 1rem;
        }

        nav a {
            margin-right: 1rem;
            color: var(--link);
            text-decoration: none;
        }

        nav a:hover {
            text-decoration: underline;
        }

        .tool {
            margin-bottom: 2.5rem;
            padding-bottom: 2rem;
            border-bottom: 1px solid var(--border);
        }

        .tool:last-child {
            border-bottom: none;
        }

        .tool h2 {
            margin: 0 0 0.5rem 0;
            font-size: 1.5rem;
        }

        .tool h2 a {
            color: var(--text);
            text-decoration: none;
        }

        .tool h2 a:hover {
            color: var(--link);
        }

        .anchor {
            color: var(--muted);
            margin-right: 0.5rem;
            opacity: 0.3;
            text-decoration: none;
        }

        .tool:hover .anchor {
            opacity: 1;
        }

        .description {
            color: var(--muted);
            margin: 0.5rem 0;
        }

        .meta {
            font-size: 0.9rem;
            margin: 0.5rem 0 1rem 0;
        }

        .meta a {
            color: var(--link);
            text-decoration: none;
        }

        .meta a:hover {
            text-decoration: underline;
        }

        details.commits {
            margin-top: 1rem;
        }

        details.commits summary {
            cursor: pointer;
            color: var(--link);
            font-size: 0.9rem;
        }

        details.commits summary:hover {
            text-decoration: underline;
        }

        .commits-list {
            margin-top: 1rem;
            padding-left: 1rem;
            border-left: 2px solid var(--border);
        }

        .commit {
            margin-bottom: 1.5rem;
        }

        .commit:last-child {
            margin-bottom: 0;
        }

        .commit-header {
            display: flex;
            gap: 1rem;
            align-items: center;
            margin-bottom: 0.25rem;
        }

        .commit-hash {
            font-family: 'SF Mono', Monaco, 'Courier New', monospace;
            font-size: 0.85rem;
            color: var(--accent);
            text-decoration: none;
            background: var(--code-bg);
            padding: 0.1rem 0.4rem;
            border-radius: 3px;
        }

        .commit-hash:hover {
            text-decoration: underline;
        }

        .commit-date {
            font-size: 0.85rem;
            color: var(--muted);
        }

        .commit-message {
            font-size: 0.9rem;
            white-space: pre-wrap;
            word-break: break-word;
        }

        .commit-message a {
            color: var(--link);
            text-decoration: none;
        }

        .commit-message a:hover {
            text-decoration: underline;
        }

        footer {
            margin-top: 3rem;
            padding-top: 1.5rem;
            border-top: 1px solid var(--border);
            color: var(--muted);
            font-size: 0.9rem;
        }

        @media (max-width: 600px) {
            body {
                padding: 1rem;
            }

            header h1 {
                font-size: 1.5rem;
            }

            .tool h2 {
                font-size: 1.25rem;
            }

            .commit-header {
                flex-direction: column;
                align-items: flex-start;
                gap: 0.25rem;
            }
        }
    </style>
</head>
<body>
    <header>
        <h1>Colophon</h1>
        <p>Development history and AI session transcripts for '' @
     str_nat (length tools) @
     u '' tool'' @
     (if length tools \<noteq> 1 then u ''s'' else []) @
     u ''.</p>
        <nav>
            <a href="index.html">All Tools</a>
            <a href="https://github.com/'' @
     GITHUB_REPO @
     u ''">GitHub</a>
        </nav>
    </header>

    <main>
        '' @
     concat tool_sections @
     u ''
    </main>

    <footer>
        <p>
            This page shows the commit history for each tool, including links to
            Claude Code session transcripts where available.
        </p>
    </footer>

    <script>
        // Auto-expand commits if navigating to a specific tool
        if (window.location.hash) {
            const tool = document.querySelector(window.location.hash);
            if (tool) {
                const details = tool.querySelector('details');
                if (details) details.open = true;
            }
        }
    </script>
</body>
</html>
''\<close>

definition colophon_html :: ustr where
  "colophon_html = u ''colophon.html''"

definition build_colophon :: "'dt datetime_lib \<Rightarrow> fs \<Rightarrow> error + (fs \<times> ustr list)" where
  "build_colophon lib files =
     (case files gathered_links_json of
        None \<Rightarrow> Inr (files, [not_found_message])
      | Some (Text s) \<Rightarrow> Inl JSONDecodeError
      | Some (Json tools) \<Rightarrow>
          bind_err (map_err (tool_section lib) tools) (\<lambda>tool_sections.
            Inr (files(colophon_html \<mapsto> Text (colophon_page tools tool_sections)),
                 [u ''Built colophon.html with '' @ str_nat (length tools) @ u '' tool(s)''])))"

section \<open>The pipeline\<close>

text \<open>The three steps in their order, each on the files the one before left.\<close>

definition pipeline :: "env \<Rightarrow> 'dt datetime_lib \<Rightarrow> fs \<Rightarrow> error + (fs \<times> ustr list)" where
  "pipeline e lib files =
     bind_err (main e files) (\<lambda>(files1, out1).
     bind_err (build_index lib files1) (\<lambda>(files2, out2).
     bind_err (build_colophon lib files2) (\<lambda>(files3, out3).
       Inr (files3, out1 @ out2 @ out3))))"

section \<open>Where a character stands in a text\<close>

text \<open>
  Two ways to say that a character \<open>c\<close> occurs in a text only as part of fixed pieces
  of markup: wherever it stands, one of the texts \<open>T\<close> starts there
  (\<open>opens_with\<close>), or one of the texts \<open>T\<close> ends just before it (\<open>closed_by\<close>).
\<close>

definition opens_with :: "nat \<Rightarrow> ustr list \<Rightarrow> ustr \<Rightarrow> bool" where
  "opens_with c T s = (\<forall>t. suffix (c # t) s \<longrightarrow> (\<exists>p\<in>set T. prefix p (c # t)))"

definition closed_by :: "nat \<Rightarrow> ustr list \<Rightarrow> ustr \<Rightarrow> bool" where
  "closed_by c T s = (\<forall>q. prefix (q @ [c]) s \<longrightarrow> (\<exists>p\<in>set T. suffix p q))"

text \<open>
  The tags that \<open>format_commit_message\<close> inserts start with one of \<open>tag_starts\<close> and
  their \<open>>\<close> comes after one of \<open>tag_ends\<close>; \<open>entities\<close> are what \<open>html.escape\<close>
  writes.
\<close>

definition tag_starts :: "ustr list" where
  \<open>tag_starts = [u ''<a href="'', u ''</a>'', u ''<br>'']\<close>

definition tag_ends :: "ustr list" where
  \<open>tag_ends = [u ''"'', u ''</a'', u ''<br'']\<close>

definition entities :: "ustr list" where
  \<open>entities = [u ''&amp;'', u ''&lt;'', u ''&gt;'', u ''&quot;'', u ''&#x27;'']\<close>

section \<open>Example inputs\<close>

text \<open>
  A directory with three pages and a generated index: \<open>a.html\<close> has no commit,
  \<open>b.html\<close> has two and \<open>c.html\<close> one, the newest of all.
\<close>

definition example_log :: "ustr \<Rightarrow> ustr" where
  "example_log p =
     (if p = u ''b.html''
      then u ''b2|2024-02-01T09:00:00+00:00|Fix #12, see https://example.com/b.
'' @ [NUL] @ u ''
b1|2024-01-01T09:00:00+00:00|Add b (https://example.com/b) https://example.com/b
'' @ [NUL] @ u ''
''
      else if p = u ''c.html''
      then u ''c1|2024-03-01T09:00:00+00:00|Add c
'' @ [NUL] @ u ''
''
      else [])"

definition example_text :: "ustr \<Rightarrow> error + ustr" where
  \<open>example_text p =
     (if p = u ''b.html''
      then Inr (u ''<title>B</title><meta name="description" content=" About b ">'')
      else if p = u ''c.html''
      then Inr (u ''<TITLE> C </TITLE><p class="x">Tool c</p>'')
      else Inl FileNotFoundError)\<close>

definition example_env :: env where
  "example_env =
     \<lparr>html_files = [u ''a.html'', u ''b.html'', u ''c.html'', u ''index.html''],
      git_log = example_log,
      read_text = example_text,
      str_title = (\<lambda>s. s)\<rparr>"

text \<open>A date library that parses nothing, so that every date is shown as it is.\<close>

definition example_lib :: "unit datetime_lib" where
  "example_lib = \<lparr>fromisoformat = (\<lambda>s. Inl ValueError), strftime = (\<lambda>dt fmt. Inr [])\<rparr>"

text \<open>The records of \<open>b.html\<close> and \<open>c.html\<close> that the gather step builds from them.\<close>

definition example_b :: tool where
  "example_b =
     \<lparr>file_path = u ''b.html'', slug = u ''b'', title = u ''B'', description = u ''About b'',
      commits =
        [\<lparr>hash = u ''b2'', date = u ''2024-02-01T09:00:00+00:00'',
          message = u ''Fix #12, see https://example.com/b.''\<rparr>,
         \<lparr>hash = u ''b1'', date = u ''2024-01-01T09:00:00+00:00'',
          message = u ''Add b (https://example.com/b) https://example.com/b''\<rparr>],
      urls = [u ''https://example.com/b''],
      created = Some (u ''2024-01-01T09:00:00+00:00''),
      updated = Some (u ''2024-02-01T09:00:00+00:00'')\<rparr>"

definition example_c :: tool where
  "example_c =
     \<lparr>file_path = u ''c.html'', slug = u ''c'', title = u ''C'', description = u ''Tool c'',
      commits =
        [\<lparr>hash = u ''c1'', date = u ''2024-03-01T09:00:00+00:00'', message = u ''Add c''\<rparr>],
      urls = [],
      created = Some (u ''2024-03-01T09:00:00+00:00''),
      updated = Some (u ''2024-03-01T09:00:00+00:00'')\<rparr>"

section \<open>The commit log: proofs\<close>

lemma split_cut:
  assumes "sep \<in> set s"
  shows "s = takeWhile (\<lambda>c. c \<noteq> sep) s @ [sep] @ tl (dropWhile (\<lambda>c. c \<noteq> sep) s)"
    and "count_list s sep = Suc (count_list (tl (dropWhile (\<lambda>c. c \<noteq> sep) s)) sep)"
    and "sep \<notin> set (takeWhile (\<lambda>c. c \<noteq> sep) s)"
proof -
  let ?d = "dropWhile (\<lambda>c. c \<noteq> sep) s"
  from assms have "?d \<noteq> []" by (simp add: dropWhile_eq_Nil_conv) 
  moreover have "\<not> (hd ?d \<noteq> sep)" using \<open>?d \<noteq> []\<close> by (rule hd_dropWhile)
  ultimately have d: "?d = sep # tl ?d" by (cases ?d) auto
  have "s = takeWhile (\<lambda>c. c \<noteq> sep) s @ ?d" by simp
  with d show 1: "s = takeWhile (\<lambda>c. c \<noteq> sep) s @ [sep] @ tl ?d" by simp
  show 3: "sep \<notin> set (takeWhile (\<lambda>c. c \<noteq> sep) s)" by (auto dest: set_takeWhileD)
  have "count_list s sep = count_list (takeWhile (\<lambda>c. c \<noteq> sep) s) sep + count_list ([sep] @ tl ?d) sep"
    by (subst 1) (simp only: count_list_append)
  with 3 show "count_list s sep = Suc (count_list (tl ?d) sep)"
    by (simp add: count_notin)
qed

lemma split_at_first:
  assumes "sep \<notin> set x"
  shows "takeWhile (\<lambda>c. c \<noteq> sep) (x @ sep # r) = x"
    and "tl (dropWhile (\<lambda>c. c \<noteq> sep) (x @ sep # r)) = r"
  using assms by (induction x) auto

subsection \<open>Splitting\<close>

lemma split_max_parts:
  "count_list s sep \<le> n \<Longrightarrow>
     (\<forall>e\<in>set (split_max sep n s). sep \<notin> set e) \<and>
     concat (map (\<lambda>e. e @ [sep]) (split_max sep n s)) = s @ [sep]"
proof (induction n arbitrary: s)
  case 0
  then show ?case by (simp add: count_list_0_iff)
next
  case (Suc n)
  show ?case
  proof (cases "sep \<in> set s")
    case True
    let ?r = "tl (dropWhile (\<lambda>c. c \<noteq> sep) s)"
    from split_cut(2)[OF True] Suc.prems have "count_list ?r sep \<le> n" by simp
    from Suc.IH[OF this] split_cut(1,3)[OF True] True show ?thesis
      by (simp del: append_eq_append_conv)
  next
    case False
    then show ?thesis by simp
  qed
qed

lemma split_max_enough:
  "count_list s sep \<le> n \<Longrightarrow> count_list s sep \<le> m \<Longrightarrow> split_max sep n s = split_max sep m s"
proof (induction n arbitrary: s m)
  case 0
  then have "sep \<notin> set s" by (simp add: count_list_0_iff)
  then show ?case by (cases m) simp_all
next
  case (Suc n)
  show ?case
  proof (cases "sep \<in> set s")
    case True
    let ?r = "tl (dropWhile (\<lambda>c. c \<noteq> sep) s)"
    from split_cut(2)[OF True] Suc.prems obtain m' where m: "m = Suc m'"
      and "count_list ?r sep \<le> n" "count_list ?r sep \<le> m'"
      by (cases m) auto
    with Suc.IH[of ?r m'] True show ?thesis by simp
  next
    case False
    then show ?thesis by (cases m) simp_all
  qed
qed

lemma count_le_length: "count_list s x \<le> length s"
  by (induction s) auto

lemma split_on_parts:
  "(\<forall>e\<in>set (split_on sep s). sep \<notin> set e) \<and>
   concat (map (\<lambda>e. e @ [sep]) (split_on sep s)) = s @ [sep]"
  unfolding split_on_def by (rule split_max_parts) (rule count_le_length)

lemma split_on_single: "sep \<notin> set s \<Longrightarrow> split_on sep s = [s]"
  by (cases "length s") (simp_all add: split_on_def)

lemma split_on_first:
  assumes "sep \<notin> set x"
  shows "split_on sep (x @ sep # r) = x # split_on sep r"
proof -
  have "split_on sep (x @ sep # r) = split_max sep (Suc (length x + length r)) (x @ sep # r)"
    by (simp add: split_on_def)
  also have "\<dots> = x # split_max sep (length x + length r) r"
    using split_at_first[OF assms, of r] by simp
  also have "split_max sep (length x + length r) r = split_max sep (length r) r"
    by (rule split_max_enough) (use count_le_length[of r sep] in simp_all)
  finally show ?thesis by (simp add: split_on_def)
qed

lemma split_max_2_few:
  "count_list s sep < 2 \<Longrightarrow> length (split_max sep 2 s) < 3"
  using split_cut(2)[of sep s]
  by (auto simp: numeral_2_eq_2 count_list_0_iff)

lemma split_max_2_cut:
  assumes "sep \<notin> set h" and "sep \<notin> set d"
  shows "split_max sep 2 (h @ [sep] @ d @ [sep] @ m) = [h, d, m]"
  using assms split_at_first[of sep h "d @ sep # m"] split_at_first[of sep d m]
  by (simp add: numeral_2_eq_2)

lemma split_max_2_three:
  assumes "2 \<le> count_list s sep"
  shows "\<exists>h d m. s = h @ [sep] @ d @ [sep] @ m \<and> sep \<notin> set h \<and> sep \<notin> set d"
proof -
  let ?r = "tl (dropWhile (\<lambda>c. c \<noteq> sep) s)"
  let ?r2 = "tl (dropWhile (\<lambda>c. c \<noteq> sep) ?r)"
  from assms have in1: "sep \<in> set s" by (metis count_notin not_numeral_le_zero)
  from split_cut(2)[OF in1] assms have "1 \<le> count_list ?r sep" by simp
  then have in2: "sep \<in> set ?r" by (metis count_notin not_one_le_zero)
  have "s = takeWhile (\<lambda>c. c \<noteq> sep) s @ [sep] @ takeWhile (\<lambda>c. c \<noteq> sep) ?r @ [sep] @ ?r2"
    using split_cut(1)[OF in1] split_cut(1)[OF in2] by simp
  then show ?thesis
    using split_cut(3)[OF in1] split_cut(3)[OF in2] by blast
qed

subsection \<open>Stripping\<close>

lemma rstrip_append:
  assumes "A \<noteq> []" and "\<not> p (last A)"
  shows "rstrip p (A @ B) = A @ rstrip p B"
proof -
  from assms have "rev A \<noteq> []" and "\<not> p (hd (rev A))" by (simp_all add: hd_rev)
  then have "dropWhile p (rev A) = rev A" by (cases "rev A") auto
  then show ?thesis by (simp add: rstrip_def dropWhile_append)
qed

lemma rstrip_subset: "set (rstrip p s) \<subseteq> set s"
  by (auto simp: rstrip_def dest: set_dropWhileD)

lemma rstrip_last: "rstrip p s \<noteq> [] \<Longrightarrow> \<not> p (last (rstrip p s))"
  by (simp add: rstrip_def last_rev hd_dropWhile)

lemma rstrip_all: "\<forall>c\<in>set b. p c \<Longrightarrow> rstrip p b = []"
  by (simp add: rstrip_def)

lemma rstrip_decomp: "\<exists>b. s = rstrip p s @ b \<and> (\<forall>c\<in>set b. p c)"
proof -
  have "s = rev (dropWhile p (rev s)) @ rev (takeWhile p (rev s))"
    by (metis rev_append rev_rev_ident takeWhile_dropWhile_id)
  moreover have "\<forall>c\<in>set (rev (takeWhile p (rev s))). p c"
    by (auto dest: set_takeWhileD)
  ultimately show ?thesis unfolding rstrip_def by blast
qed

lemma strip_unique:
  assumes "s = a @ t @ b" and "\<forall>c\<in>set a. isspace c" and "\<forall>c\<in>set b. isspace c"
    and "t = [] \<or> \<not> isspace (hd t) \<and> \<not> isspace (last t)"
  shows "strip s = t"
proof (cases "t = []")
  case True
  with assms have "\<forall>c\<in>set s. isspace c" by auto
  then have "dropWhile isspace s = []" by simp
  with True show ?thesis by (simp only: strip_def lstrip_def rstrip_def) simp
next
  case False
  with assms(4) have h: "\<not> isspace (hd t)" and l: "\<not> isspace (last t)" by simp_all
  from assms(1,2) have "dropWhile isspace s = dropWhile isspace (t @ b)"
    by (simp add: dropWhile_append2)
  also from False h have "\<dots> = t @ b" by (cases t) simp_all
  finally have "strip s = rstrip isspace (t @ b)" by (simp add: strip_def lstrip_def)
  also have "\<dots> = t @ rstrip isspace b" using False l by (rule rstrip_append)
  finally show ?thesis using assms(3) by (simp add: rstrip_all)
qed

lemma strip_decomp:
  "\<exists>a b. s = a @ strip s @ b \<and> (\<forall>c\<in>set a. isspace c) \<and> (\<forall>c\<in>set b. isspace c) \<and>
     (strip s = [] \<or> \<not> isspace (hd (strip s)) \<and> \<not> isspace (last (strip s)))"
proof -
  define l where "l = dropWhile isspace s"
  have st: "strip s = rstrip isspace l" by (simp add: strip_def lstrip_def l_def)
  from rstrip_decomp[of l isspace] obtain b where b: "l = strip s @ b" "\<forall>c\<in>set b. isspace c"
    unfolding st by blast
  have a: "s = takeWhile isspace s @ l" "\<forall>c\<in>set (takeWhile isspace s). isspace c"
    by (auto simp: l_def dest: set_takeWhileD)
  have "\<not> isspace (hd (strip s)) \<and> \<not> isspace (last (strip s))" if ne: "strip s \<noteq> []"
  proof -
    from ne b have "l \<noteq> []" and "hd l = hd (strip s)" by auto
    moreover from \<open>l \<noteq> []\<close> have "\<not> isspace (hd l)" unfolding l_def by (rule hd_dropWhile)
    moreover from ne have "\<not> isspace (last (strip s))" unfolding st by (rule rstrip_last)
    ultimately show ?thesis by simp
  qed
  with a b show ?thesis by metis
qed

lemma strip_space: "\<forall>c\<in>set s. isspace c \<Longrightarrow> strip s = []"
  using strip_unique[of s s "[]" "[]"] by simp

lemma bar_not_space: "\<not> isspace bar" and NUL_not_space: "\<not> isspace NUL"
  by (simp_all add: isspace_def bar_def NUL_def)

subsection \<open>One entry of the log\<close>

lemma count_strip: "count_list (strip entry) bar = count_list entry bar"
proof -
  from strip_decomp[of entry] obtain a b where e: "entry = a @ strip entry @ b"
    and a: "\<forall>c\<in>set a. isspace c" and b: "\<forall>c\<in>set b. isspace c" by blast
  from a b bar_not_space have "bar \<notin> set a" "bar \<notin> set b" by auto
  then have "count_list (a @ strip entry @ b) bar = count_list (strip entry) bar"
    by (simp add: count_list_append count_notin)
  with e show ?thesis by simp
qed

lemma commit_step_few: "count_list entry bar < 2 \<Longrightarrow> commit_step acc entry = acc"
  using split_max_2_few[of "strip entry" bar]
  by (auto simp: commit_step_def Let_def count_strip split: list.splits)

lemma commit_step_cut:
  assumes "strip entry = h @ [bar] @ d @ [bar] @ m" and "bar \<notin> set h" and "bar \<notin> set d"
  shows "commit_step acc entry = acc @ [\<lparr>hash = h, date = d, message = strip m\<rparr>]"
proof -
  from assms(1) have "strip entry \<noteq> []" by auto
  moreover have "split_max bar 2 (strip entry) = [h, d, m]"
    unfolding assms(1) using assms(2,3) by (rule split_max_2_cut)
  ultimately show ?thesis by (simp add: commit_step_def Let_def)
qed

lemma commit_step_entry:
  assumes entry: "entry = a @ h @ [bar] @ d @ [bar] @ w @ msg @ b"
    and ws: "\<forall>c\<in>set a. isspace c" "\<forall>c\<in>set w. isspace c" "\<forall>c\<in>set b. isspace c"
    and h: "h = [] \<or> \<not> isspace (hd h)" "bar \<notin> set h" and d: "bar \<notin> set d"
    and msg: "msg = [] \<or> \<not> isspace (hd msg) \<and> \<not> isspace (last msg)"
  shows "commit_step acc entry = acc @ [\<lparr>hash = h, date = d, message = msg\<rparr>]"
proof -
  define m where "m = (if msg = [] then [] else w @ msg)"
  define t where "t = h @ [bar] @ d @ [bar] @ m"
  define b' where "b' = (if msg = [] then w @ b else b)"
  have e: "entry = a @ t @ b'" by (simp add: entry t_def m_def b'_def)
  have b': "\<forall>c\<in>set b'. isspace c" using ws by (auto simp: b'_def)
  have "hd t = (if h = [] then bar else hd h)" by (simp add: t_def)
  with h(1) bar_not_space have hd: "\<not> isspace (hd t)" by auto
  have "last t = (if msg = [] then bar else last msg)" by (simp add: t_def m_def)
  with msg bar_not_space have "\<not> isspace (last t)" by auto
  with hd have "strip entry = t" using e ws(1) b' by (intro strip_unique[of entry a t b']) simp_all
  then have "commit_step acc entry = acc @ [\<lparr>hash = h, date = d, message = strip m\<rparr>]"
    unfolding t_def using h(2) d by (rule commit_step_cut)
  moreover have "strip m = msg"
    using ws(2) msg by (intro strip_unique[of m "if msg = [] then [] else w" msg "[]"]) (auto simp: m_def)
  ultimately show ?thesis by simp
qed

lemma entry_parts:
  assumes "2 \<le> count_list entry bar"
  shows "\<exists>a h d w msg b. entry = a @ h @ [bar] @ d @ [bar] @ w @ msg @ b \<and>
     (\<forall>c\<in>set a. isspace c) \<and> (\<forall>c\<in>set w. isspace c) \<and> (\<forall>c\<in>set b. isspace c) \<and>
     (h = [] \<or> \<not> isspace (hd h)) \<and> bar \<notin> set h \<and> bar \<notin> set d \<and>
     (msg = [] \<or> \<not> isspace (hd msg) \<and> \<not> isspace (last msg))"
proof -
  from strip_decomp[of entry] obtain a b where e: "entry = a @ strip entry @ b"
    and a: "\<forall>c\<in>set a. isspace c" and b: "\<forall>c\<in>set b. isspace c"
    and t: "strip entry = [] \<or> \<not> isspace (hd (strip entry)) \<and> \<not> isspace (last (strip entry))"
    by blast
  from assms have "2 \<le> count_list (strip entry) bar" by (simp add: count_strip)
  from split_max_2_three[OF this] obtain h d m where
    s: "strip entry = h @ [bar] @ d @ [bar] @ m" and h: "bar \<notin> set h" and d: "bar \<notin> set d"
    by blast
  from s t have "\<not> isspace (hd (h @ [bar] @ d @ [bar] @ m))" by auto
  then have h0: "h = [] \<or> \<not> isspace (hd h)" by (cases h) auto
  from strip_decomp[of m] obtain w w2 where m: "m = w @ strip m @ w2"
    and w: "\<forall>c\<in>set w. isspace c" and w2: "\<forall>c\<in>set w2. isspace c"
    and tm: "strip m = [] \<or> \<not> isspace (hd (strip m)) \<and> \<not> isspace (last (strip m))"
    by blast
  from e s m have "entry = a @ h @ [bar] @ d @ [bar] @ w @ strip m @ (w2 @ b)"
    by (metis append.assoc)
  moreover from w2 b have "\<forall>c\<in>set (w2 @ b). isspace c" by auto
  ultimately show ?thesis using a w h0 h d tm by blast
qed

subsection \<open>The log that git writes\<close>

lemma has_shape_chars:
  "has_shape sh s \<Longrightarrow> c \<in> set s \<Longrightarrow> (0x30 \<le> c \<and> c \<le> 0x39) \<or> c \<in> set sh"
  by (induction sh s rule: has_shape.induct) (auto split: if_splits)

lemma shape_free:
  "has_shape sh s \<Longrightarrow> x \<notin> set sh \<Longrightarrow> \<not> (0x30 \<le> x \<and> x \<le> 0x39) \<Longrightarrow> x \<notin> set s"
  using has_shape_chars[of sh s x] by blast

lemma iso_timestamp_free:
  "iso_timestamp s \<Longrightarrow> x \<notin> set (u ''d-T:+Z'') \<Longrightarrow> \<not> (0x30 \<le> x \<and> x \<le> 0x39) \<Longrightarrow> x \<notin> set s"
  unfolding iso_timestamp_def
  by (elim disjE; erule shape_free; simp add: u_def)

lemma iso_timestamp_chars:
  assumes "iso_timestamp s"
  shows "bar \<notin> set s" and "NUL \<notin> set s"
  by (rule iso_timestamp_free[OF assms]; simp add: u_def bar_def NUL_def)+

lemma hex_chars:
  assumes "set H \<subseteq> set (u ''0123456789abcdef'')"
  shows "bar \<notin> set H" and "NUL \<notin> set H" and "\<forall>c\<in>set H. \<not> isspace c"
  using assms by (auto simp: u_def bar_def NUL_def isspace_def)

lemma git_entry:
  assumes "H \<noteq> []" and "set H \<subseteq> set (u ''0123456789abcdef'')" and "iso_timestamp aI"
    and "\<forall>c\<in>set a. isspace c"
  shows "commit_step [] (a @ H @ [bar] @ aI @ [bar] @ B) = [\<lparr>hash = H, date = aI, message = strip B\<rparr>]"
proof -
  from strip_decomp[of B] obtain w w2 where B: "B = w @ strip B @ w2"
    and w: "\<forall>c\<in>set w. isspace c" and w2: "\<forall>c\<in>set w2. isspace c"
    and t: "strip B = [] \<or> \<not> isspace (hd (strip B)) \<and> \<not> isspace (last (strip B))"
    by blast
  from B have e: "a @ H @ [bar] @ aI @ [bar] @ B = a @ H @ [bar] @ aI @ [bar] @ w @ strip B @ w2"
    by simp
  from assms(1) hex_chars(3)[OF assms(2)] have "H = [] \<or> \<not> isspace (hd H)" by simp
  with e assms(4) w w2 hex_chars(1)[OF assms(2)] iso_timestamp_chars(1)[OF assms(3)] t
  have "commit_step [] (a @ H @ [bar] @ aI @ [bar] @ B)
          = [] @ [\<lparr>hash = H, date = aI, message = strip B\<rparr>]"
    by (intro commit_step_entry)
  then show ?thesis by simp
qed

lemma git_entries:
  assumes "\<forall>(H, aI, B)\<in>set gcs. H \<noteq> [] \<and> set H \<subseteq> set (u ''0123456789abcdef'')
             \<and> iso_timestamp aI \<and> NUL \<notin> set B"
    and "\<forall>c\<in>set a. isspace c" and "NUL \<notin> set a"
  shows "concat (map (commit_step [])
           (split_on NUL (a @ concat (map (\<lambda>(H, aI, B). H @ [bar] @ aI @ [bar] @ B @ [NUL, 0xA]) gcs))))
         = map (\<lambda>(H, aI, B). \<lparr>hash = H, date = aI, message = strip B\<rparr>) gcs"
  using assms
proof (induction gcs arbitrary: a)
  case Nil
  then show ?case
    by (simp add: split_on_single commit_step_def strip_space)
next
  case (Cons g gcs)
  obtain H aI B where g: "g = (H, aI, B)" by (cases g)
  from Cons.prems(1) g have H: "H \<noteq> []" "set H \<subseteq> set (u ''0123456789abcdef'')"
    and aI: "iso_timestamp aI" and B: "NUL \<notin> set B" by auto
  let ?x = "a @ H @ [bar] @ aI @ [bar] @ B"
  let ?rest = "concat (map (\<lambda>(H, aI, B). H @ [bar] @ aI @ [bar] @ B @ [NUL, 0xA]) gcs)"
  have nul: "NUL \<notin> set ?x"
    using Cons.prems(3) hex_chars(2)[OF H(2)] iso_timestamp_chars(2)[OF aI] B
    by (simp add: bar_def NUL_def)
  have "a @ concat (map (\<lambda>(H, aI, B). H @ [bar] @ aI @ [bar] @ B @ [NUL, 0xA]) (g # gcs))
          = ?x @ NUL # ([0xA] @ ?rest)"
    by (simp add: g)
  then have "split_on NUL (a @ concat (map (\<lambda>(H, aI, B). H @ [bar] @ aI @ [bar] @ B @ [NUL, 0xA]) (g # gcs)))
          = ?x # split_on NUL ([0xA] @ ?rest)"
    using split_on_first[OF nul] by simp
  moreover have "commit_step [] ?x = [\<lparr>hash = H, date = aI, message = strip B\<rparr>]"
    using H aI Cons.prems(2) by (rule git_entry)
  moreover have "concat (map (commit_step []) (split_on NUL ([0xA] @ ?rest)))
          = map (\<lambda>(H, aI, B). \<lparr>hash = H, date = aI, message = strip B\<rparr>) gcs"
    using Cons.prems(1) by (intro Cons.IH) (auto simp: isspace_def NUL_def)
  ultimately show ?case by (simp add: g)
qed

lemma commit_step_append: "commit_step acc entry = acc @ commit_step [] entry"
  by (auto simp: commit_step_def Let_def split: list.splits)

lemma foldl_commit_step:
  "foldl commit_step acc es = acc @ concat (map (commit_step []) es)"
proof (induction es arbitrary: acc)
  case Nil
  then show ?case by simp
next
  case (Cons e es)
  show ?case
    by (simp add: Cons.IH[of "commit_step acc e"]) (subst commit_step_append, simp)
qed

lemma commits_of_entries:
  "get_file_commit_details gl p = concat (map (commit_step []) (split_on NUL (gl p)))"
  by (simp add: get_file_commit_details_def foldl_commit_step)

text \<open>
  Claim C5. \<open>strip\<close> takes away exactly the whitespace around a text, and the entries
  of the log are its pieces between the NULs, none with a NUL in it. An entry with fewer
  than two \<open>|\<close> (an empty one too) adds no record. Every other entry is, inside the
  whitespace around it, a hash without \<open>|\<close>, a \<open>|\<close>, a date without \<open>|\<close>, a
  \<open>|\<close> and the rest, and it adds the one record of exactly these three fields, the
  message being the rest without the whitespace around it. The list returned is the
  records of the entries, in the order of the log. When the log is what git writes for
  the format, for each commit its hexadecimal hash, \<open>|\<close>, the author date as an ISO
  timestamp, \<open>|\<close>, the raw body, NUL and a newline, the list returned is commit by
  commit the hash, that date and the stripped body, so every date in it is an ISO
  timestamp.
\<close>

theorem commit_records:
  "(\<exists>a b. s = a @ strip s @ b \<and> (\<forall>c\<in>set a. isspace c) \<and> (\<forall>c\<in>set b. isspace c) \<and>
      (strip s = [] \<or> \<not> isspace (hd (strip s)) \<and> \<not> isspace (last (strip s)))) \<and>
   (\<forall>e\<in>set (split_on NUL (gl p)). NUL \<notin> set e) \<and>
   concat (map (\<lambda>e. e @ [NUL]) (split_on NUL (gl p))) = gl p @ [NUL] \<and>
   get_file_commit_details gl p = concat (map (commit_step []) (split_on NUL (gl p))) \<and>
   (count_list entry bar < 2 \<longrightarrow> commit_step acc entry = acc) \<and>
   (2 \<le> count_list entry bar \<longrightarrow>
      (\<exists>a h d w msg b. entry = a @ h @ [bar] @ d @ [bar] @ w @ msg @ b \<and>
         (\<forall>c\<in>set a. isspace c) \<and> (\<forall>c\<in>set w. isspace c) \<and> (\<forall>c\<in>set b. isspace c) \<and>
         (h = [] \<or> \<not> isspace (hd h)) \<and> bar \<notin> set h \<and> bar \<notin> set d \<and>
         (msg = [] \<or> \<not> isspace (hd msg) \<and> \<not> isspace (last msg)))) \<and>
   (\<forall>a h d w msg b. entry = a @ h @ [bar] @ d @ [bar] @ w @ msg @ b \<longrightarrow>
      (\<forall>c\<in>set a. isspace c) \<longrightarrow> (\<forall>c\<in>set w. isspace c) \<longrightarrow> (\<forall>c\<in>set b. isspace c) \<longrightarrow>
      (h = [] \<or> \<not> isspace (hd h)) \<longrightarrow> bar \<notin> set h \<longrightarrow> bar \<notin> set d \<longrightarrow>
      (msg = [] \<or> \<not> isspace (hd msg) \<and> \<not> isspace (last msg)) \<longrightarrow>
      commit_step acc entry = acc @ [\<lparr>hash = h, date = d, message = msg\<rparr>]) \<and>
   ((\<forall>(H, aI, B)\<in>set gcs. H \<noteq> [] \<and> set H \<subseteq> set (u ''0123456789abcdef'')
        \<and> iso_timestamp aI \<and> NUL \<notin> set B) \<longrightarrow>
    gl p = concat (map (\<lambda>(H, aI, B). H @ [bar] @ aI @ [bar] @ B @ [NUL, 0xA]) gcs) \<longrightarrow>
      get_file_commit_details gl p = map (\<lambda>(H, aI, B). \<lparr>hash = H, date = aI, message = strip B\<rparr>) gcs
      \<and> (\<forall>c\<in>set (get_file_commit_details gl p). iso_timestamp (date c)))"
proof -
  have git: "get_file_commit_details gl p = map (\<lambda>(H, aI, B). \<lparr>hash = H, date = aI, message = strip B\<rparr>) gcs
      \<and> (\<forall>c\<in>set (get_file_commit_details gl p). iso_timestamp (date c))"
    if good: "\<forall>(H, aI, B)\<in>set gcs. H \<noteq> [] \<and> set H \<subseteq> set (u ''0123456789abcdef'')
        \<and> iso_timestamp aI \<and> NUL \<notin> set B"
      and log: "gl p = concat (map (\<lambda>(H, aI, B). H @ [bar] @ aI @ [bar] @ B @ [NUL, 0xA]) gcs)"
  proof -
    from git_entries[OF good, of "[]"] log
    have r: "get_file_commit_details gl p = map (\<lambda>(H, aI, B). \<lparr>hash = H, date = aI, message = strip B\<rparr>) gcs"
      by (simp add: commits_of_entries)
    moreover from good have "\<forall>c\<in>set (map (\<lambda>(H, aI, B). \<lparr>hash = H, date = aI, message = strip B\<rparr>) gcs).
        iso_timestamp (date c)" by auto
    ultimately show ?thesis by simp
  qed
  show ?thesis
    using strip_decomp[of s] split_on_parts[of NUL "gl p"] commits_of_entries[of gl p]
      commit_step_few[of entry acc] entry_parts[of entry] commit_step_entry[of entry _ _ _ _ _ _ acc]
      git
    by (intro conjI impI allI) blast+
qed

theorem commit_records_witness:
  "get_file_commit_details
     (\<lambda>p. u ''c0ffee1|2024-03-01T10:00:00+01:00|Add a | b

More.
'' @ [NUL, 0xA] @ u ''0badbeef|2023-12-31T23:59:59Z|  First
'' @ [NUL, 0xA]) (u ''a.html'') =
     [\<lparr>hash = u ''c0ffee1'', date = u ''2024-03-01T10:00:00+01:00'', message = u ''Add a | b

More.''\<rparr>,
      \<lparr>hash = u ''0badbeef'', date = u ''2023-12-31T23:59:59Z'', message = u ''First''\<rparr>] \<and>
   iso_timestamp (u ''2024-03-01T10:00:00+01:00'') \<and> iso_timestamp (u ''2023-12-31T23:59:59Z'') \<and>
   split_on NUL (u ''x|y|z'' @ [NUL, 0xA] @ u ''no bars'' @ [NUL, 0xA]) =
     [u ''x|y|z'', 0xA # u ''no bars'', [0xA]] \<and>
   strip (u ''  Fix|it 
'') = u ''Fix|it'' \<and>
   count_list (u ''no bars '') bar < 2 \<and> commit_step [] (u ''no bars '') = [] \<and>
   commit_step [] (0xA # u '' a1|d2|  Fix|it 
'') = [\<lparr>hash = u ''a1'', date = u ''d2'', message = u ''Fix|it''\<rparr>]"
proof -
  let ?gcs = "[(u ''c0ffee1'', u ''2024-03-01T10:00:00+01:00'', u ''Add a | b

More.
''), (u ''0badbeef'', u ''2023-12-31T23:59:59Z'', u ''  First
'')]"
  let ?gl = "\<lambda>p::ustr. u ''c0ffee1|2024-03-01T10:00:00+01:00|Add a | b

More.
'' @ [NUL, 0xA] @ u ''0badbeef|2023-12-31T23:59:59Z|  First
'' @ [NUL, 0xA]"
  have iso: "iso_timestamp (u ''2024-03-01T10:00:00+01:00'')" "iso_timestamp (u ''2023-12-31T23:59:59Z'')"
    by (simp_all add: iso_timestamp_def u_def)
  have good: "\<forall>(H, aI, B)\<in>set ?gcs. H \<noteq> [] \<and> set H \<subseteq> set (u ''0123456789abcdef'')
        \<and> iso_timestamp aI \<and> NUL \<notin> set B"
    using iso by (simp add: u_def NUL_def)
  have log: "?gl (u ''a.html'') =
      concat (map (\<lambda>(H, aI, B). H @ [bar] @ aI @ [bar] @ B @ [NUL, 0xA]) ?gcs)"
    by (simp add: u_def bar_def)
  have few: "count_list (u ''no bars '') bar < 2" by (simp add: u_def bar_def)
  have parts: "0xA # u '' a1|d2|  Fix|it 
'' = [0xA, 0x20] @ u ''a1'' @ [bar] @ u ''d2'' @ [bar] @ u ''  '' @ u ''Fix|it'' @ [0x20, 0xA]"
    by (simp add: u_def bar_def)
  have ws: "\<forall>c\<in>set [0xA, 0x20]. isspace c" "\<forall>c\<in>set (u ''  ''). isspace c"
    "\<forall>c\<in>set [0x20, 0xA]. isspace c"
    by (simp_all add: isspace_def u_def)
  have ends: "u ''a1'' = [] \<or> \<not> isspace (hd (u ''a1''))" "bar \<notin> set (u ''a1'')" "bar \<notin> set (u ''d2'')"
    "u ''Fix|it'' = [] \<or> \<not> isspace (hd (u ''Fix|it'')) \<and> \<not> isspace (last (u ''Fix|it''))"
    by (simp_all add: isspace_def u_def bar_def)
  note cr = commit_records[where gl = ?gl and p = "u ''a.html''" and gcs = ?gcs and acc = "[]"]
  have "get_file_commit_details ?gl (u ''a.html'') =
      map (\<lambda>(H, aI, B). \<lparr>hash = H, date = aI, message = strip B\<rparr>) ?gcs"
    by (rule cr[where entry = "u ''no bars ''", THEN conjunct2, THEN conjunct2, THEN conjunct2,
          THEN conjunct2, THEN conjunct2, THEN conjunct2, THEN conjunct2, THEN mp, THEN mp,
          THEN conjunct1, OF good log])
  then have 1: "get_file_commit_details ?gl (u ''a.html'') =
     [\<lparr>hash = u ''c0ffee1'', date = u ''2024-03-01T10:00:00+01:00'', message = u ''Add a | b

More.''\<rparr>,
      \<lparr>hash = u ''0badbeef'', date = u ''2023-12-31T23:59:59Z'', message = u ''First''\<rparr>]"
    by (simp add: strip_def lstrip_def rstrip_def isspace_def u_def)
  have 2: "commit_step [] (u ''no bars '') = []"
    by (rule cr[where entry = "u ''no bars ''", THEN conjunct2, THEN conjunct2, THEN conjunct2,
          THEN conjunct2, THEN conjunct1, THEN mp, OF few])
  have 3: "commit_step [] (0xA # u '' a1|d2|  Fix|it 
'') = [] @ [\<lparr>hash = u ''a1'', date = u ''d2'', message = u ''Fix|it''\<rparr>]"
    by (rule cr[where entry = "0xA # u '' a1|d2|  Fix|it 
''", THEN conjunct2, THEN conjunct2, THEN conjunct2, THEN conjunct2, THEN conjunct2,
          THEN conjunct2, THEN conjunct1, rule_format, OF parts ws[rule_format] ends])
  have 4: "split_on NUL (u ''x|y|z'' @ [NUL, 0xA] @ u ''no bars'' @ [NUL, 0xA]) =
     [u ''x|y|z'', 0xA # u ''no bars'', [0xA]]"
    by (simp add: split_on_def NUL_def u_def)
  have 5: "strip (u ''  Fix|it 
'') = u ''Fix|it''"
    by (simp add: strip_def lstrip_def rstrip_def isspace_def u_def)
  from 1 2 3 4 5 iso few show ?thesis by simp
qed

section \<open>The gather step: proofs\<close>

lemma extract_title_Inr: "\<exists>t. extract_title e p = Inr t"
  by (auto simp: extract_title_def split: sum.splits option.splits)

lemma extract_description_Inr: "\<exists>d. extract_description e p = Inr d"
  by (auto simp: extract_description_def split: sum.splits option.splits)

lemma gather_step_skip:
  "get_file_commit_details (git_log e) p = [] \<Longrightarrow> gather_step e tools p = Inr tools"
  by (simp add: gather_step_def)

lemma gather_step_cases:
  "gather_step e tools p = Inr tools \<or>
   (\<exists>t. gather_step e tools p = Inr (tools @ [t]) \<and> file_path t = p
      \<and> commits t = get_file_commit_details (git_log e) p \<and> commits t \<noteq> []
      \<and> created t = Some (date (last (commits t))) \<and> updated t = Some (date (hd (commits t)))
      \<and> urls t = remdups (concat (map (\<lambda>c. extract_urls (message c)) (commits t))))"
proof -
  obtain t where t: "extract_title e p = Inr t" using extract_title_Inr by blast
  obtain d where d: "extract_description e p = Inr d" using extract_description_Inr by blast
  show ?thesis
    by (simp add: gather_step_def Let_def bind_err_def t d)
qed

lemma gather_loop_all:
  assumes step: "\<And>tools p. \<exists>ts'. gather_step e tools p = Inr (tools @ ts') \<and> (\<forall>t\<in>set ts'. P t)"
  shows "\<exists>ts. gather_loop e acc ps = Inr (acc @ ts) \<and> (\<forall>t\<in>set ts. P t)"
proof (induction ps arbitrary: acc)
  case Nil
  then show ?case by simp
next
  case (Cons p ps)
  from step obtain ts' where s: "gather_step e acc p = Inr (acc @ ts')" and P: "\<forall>t\<in>set ts'. P t"
    by blast
  from Cons.IH[of "acc @ ts'"] obtain ts where
    "gather_loop e (acc @ ts') ps = Inr ((acc @ ts') @ ts)" and "\<forall>t\<in>set ts. P t" by blast
  with s P have "gather_loop e acc (p # ps) = Inr (acc @ (ts' @ ts)) \<and> (\<forall>t\<in>set (ts' @ ts). P t)"
    by (auto simp: bind_err_def)
  then show ?case by blast
qed

lemma gather_step_all:
  assumes "\<And>t. commits t = get_file_commit_details (git_log e) (file_path t) \<Longrightarrow> commits t \<noteq> []
      \<Longrightarrow> created t = Some (date (last (commits t))) \<Longrightarrow> updated t = Some (date (hd (commits t)))
      \<Longrightarrow> urls t = remdups (concat (map (\<lambda>c. extract_urls (message c)) (commits t))) \<Longrightarrow> P t"
  shows "\<exists>ts'. gather_step e tools p = Inr (tools @ ts') \<and> (\<forall>t\<in>set ts'. P t)"
proof -
  from gather_step_cases[of e tools p] show ?thesis
  proof
    assume "gather_step e tools p = Inr tools"
    then have "gather_step e tools p = Inr (tools @ []) \<and> (\<forall>t\<in>set []. P t)" by simp
    then show ?thesis by blast
  next
    assume "\<exists>t. gather_step e tools p = Inr (tools @ [t]) \<and> file_path t = p
      \<and> commits t = get_file_commit_details (git_log e) p \<and> commits t \<noteq> []
      \<and> created t = Some (date (last (commits t))) \<and> updated t = Some (date (hd (commits t)))
      \<and> urls t = remdups (concat (map (\<lambda>c. extract_urls (message c)) (commits t)))"
    then obtain t where s: "gather_step e tools p = Inr (tools @ [t])" and "P t"
      using assms by blast
    then have "gather_step e tools p = Inr (tools @ [t]) \<and> (\<forall>x\<in>set [t]. P x)" by simp
    then show ?thesis by blast
  qed
qed

lemma main_tools:
  assumes "\<And>t. commits t = get_file_commit_details (git_log e) (file_path t) \<Longrightarrow> commits t \<noteq> []
      \<Longrightarrow> created t = Some (date (last (commits t))) \<Longrightarrow> updated t = Some (date (hd (commits t)))
      \<Longrightarrow> urls t = remdups (concat (map (\<lambda>c. extract_urls (message c)) (commits t))) \<Longrightarrow> P t"
  shows "\<exists>ts. gather_loop e [] (html_files e) = Inr ts \<and>
           main e files = Inr (files(gathered_links_json \<mapsto> Json (sort_reverse updated_key ts)),
                               gather_report (sort_reverse updated_key ts)) \<and>
           (\<forall>t\<in>set (sort_reverse updated_key ts). P t)"
proof -
  from gather_loop_all[of e P "[]" "html_files e", OF gather_step_all[of e P], OF assms]
  obtain ts where "gather_loop e [] (html_files e) = Inr ts" and "\<forall>t\<in>set ts. P t"
    by auto
  then show ?thesis
    by (auto simp: main_def bind_err_def Let_def sort_reverse_def)
qed

lemma sort_reverse_sorted:
  "sorted_wrt (\<lambda>a b. k b \<le> k a) (sort_reverse k xs)"
proof -
  have "sorted (map k (sort_key k (rev xs)))" by (rule sorted_sort_key)
  then have "sorted_wrt (\<lambda>a b. k a \<le> k b) (sort_key k (rev xs))"
    by (simp add: sorted_map)
  then show ?thesis
    by (simp add: sort_reverse_def sorted_wrt_rev)
qed

lemma sort_reverse_mset: "mset (sort_reverse k xs) = mset xs"
  by (simp add: sort_reverse_def)

lemma sort_reverse_stable:
  "filter (\<lambda>y. k y = v) (sort_reverse k xs) = filter (\<lambda>y. k y = v) xs"
  by (simp add: sort_reverse_def sort_key_stable flip: rev_filter)

section \<open>The gather step on the example\<close>

lemmas str_defs = Let_def split_max.simps(2)[of _ "Suc 0", folded numeral_2_eq_2] strip_def
  lstrip_def rstrip_def isspace_def u_def bar_def NUL_def lt_def gt_def amp_def

lemma example_commits_a: "get_file_commit_details example_log (u ''a.html'') = []"
  by (simp add: get_file_commit_details_def example_log_def split_on_def commit_step_def str_defs)

lemma example_commits_b: "get_file_commit_details example_log (u ''b.html'') = commits example_b"
  by (simp add: example_b_def get_file_commit_details_def example_log_def split_on_def
      commit_step_def str_defs)

lemma example_commits_c: "get_file_commit_details example_log (u ''c.html'') = commits example_c"
  by (simp add: example_c_def get_file_commit_details_def example_log_def split_on_def
      commit_step_def str_defs)

lemmas url_defs = extract_urls_def match_url_def opt_s_def url_char_def trailing_punct_def

lemma example_urls_b:
  "remdups (concat (map (\<lambda>c. extract_urls (message c)) (commits example_b))) = urls example_b"
  by (simp add: example_b_def url_defs str_defs)

lemma example_urls_c:
  "remdups (concat (map (\<lambda>c. extract_urls (message c)) (commits example_c))) = urls example_c"
  by (simp add: example_c_def url_defs str_defs)

lemma example_title_b: "extract_title example_env (u ''b.html'') = Inr (u ''B'')"
  by (simp add: extract_title_def extract_title_try_def example_env_def example_text_def
      bind_err_def title_match_def ieq_def str_defs)

lemma example_title_c: "extract_title example_env (u ''c.html'') = Inr (u ''C'')"
  by (simp add: extract_title_def extract_title_try_def example_env_def example_text_def
      bind_err_def title_match_def ieq_def str_defs)

lemmas descr_defs = extract_description_def extract_description_try_def example_env_def
  example_text_def bind_err_def meta_match_def p_match_def spaces1_def quote1_def is_quote_def
  ieq_def

lemma example_description_b: "extract_description example_env (u ''b.html'') = Inr (u ''About b'')"
  by (simp add: descr_defs str_defs)

lemma example_description_c: "extract_description example_env (u ''c.html'') = Inr (u ''Tool c'')"
  by (simp add: descr_defs str_defs)

lemma example_step_a: "gather_step example_env tools (u ''a.html'') = Inr tools"
  by (rule gather_step_skip) (simp add: example_env_def example_commits_a)

lemma example_step_index: "gather_step example_env tools (u ''index.html'') = Inr tools"
  by (simp add: gather_step_def generated_names_def)

lemma example_step_b: "gather_step example_env tools (u ''b.html'') = Inr (tools @ [example_b])"
proof -
  have g: "git_log example_env = example_log" by (simp add: example_env_def)
  have n: "u ''b.html'' \<notin> set generated_names" by (simp add: generated_names_def u_def)
  have c: "commits example_b \<noteq> []" by (simp add: example_b_def)
  have r: "\<lparr>file_path = u ''b.html'', slug = path_stem (u ''b.html''), title = u ''B'',
            description = u ''About b'', commits = commits example_b, urls = urls example_b,
            created = Some (date (last (commits example_b))),
            updated = Some (date (hd (commits example_b)))\<rparr> = example_b"
    by (simp add: example_b_def path_stem_def rfind_def u_def)
  show ?thesis
    unfolding gather_step_def g example_commits_b Let_def example_urls_b example_title_b
      example_description_b bind_err_def
    using n c r by simp
qed

lemma example_step_c: "gather_step example_env tools (u ''c.html'') = Inr (tools @ [example_c])"
proof -
  have g: "git_log example_env = example_log" by (simp add: example_env_def)
  have n: "u ''c.html'' \<notin> set generated_names" by (simp add: generated_names_def u_def)
  have c: "commits example_c \<noteq> []" by (simp add: example_c_def)
  have r: "\<lparr>file_path = u ''c.html'', slug = path_stem (u ''c.html''), title = u ''C'',
            description = u ''Tool c'', commits = commits example_c, urls = urls example_c,
            created = Some (date (last (commits example_c))),
            updated = Some (date (hd (commits example_c)))\<rparr> = example_c"
    by (simp add: example_c_def path_stem_def rfind_def u_def)
  show ?thesis
    unfolding gather_step_def g example_commits_c Let_def example_urls_c example_title_c
      example_description_c bind_err_def
    using n c r by simp
qed

lemma example_loop: "gather_loop example_env [] (html_files example_env) = Inr [example_b, example_c]"
proof -
  have "html_files example_env = [u ''a.html'', u ''b.html'', u ''c.html'', u ''index.html'']"
    by (simp add: example_env_def)
  then show ?thesis
    by (simp add: bind_err_def example_step_a example_step_b example_step_c example_step_index)
qed

lemma example_keys:
  "updated_key example_b = u ''2024-02-01T09:00:00+00:00''"
  "updated_key example_c = u ''2024-03-01T09:00:00+00:00''"
  by (simp_all add: updated_key_def example_b_def example_c_def u_def)

lemma example_key_less: "updated_key example_b < updated_key example_c"
  by (simp add: example_keys) (simp add: u_def)

lemma example_sort: "sort_reverse updated_key [example_b, example_c] = [example_c, example_b]"
  using example_key_less by (simp add: sort_reverse_def)

lemma example_report:
  "gather_report [example_c, example_b] =
     [u ''Gathered data for 2 tool(s)'', u ''  - C (1 commits)'', u ''  - B (2 commits)'']"
  by (simp add: gather_report_def example_b_def example_c_def u_def)

lemma example_main:
  "main example_env files =
     Inr (files(gathered_links_json \<mapsto> Json [example_c, example_b]),
          [u ''Gathered data for 2 tool(s)'', u ''  - C (1 commits)'', u ''  - B (2 commits)''])"
  by (simp add: main_def bind_err_def example_loop example_sort example_report)

section \<open>The gather step: the claims\<close>

lemma json_written_inj:
  "Inr (files(k \<mapsto> Json ts), out) = (Inr (files(k \<mapsto> Json ts'), out') :: error + (fs \<times> ustr list))
     \<Longrightarrow> ts = ts'"
  by (metis Pair_inject file_data.inject(2) map_upd_eqD1 sum.inject(2))

text \<open>
  Claim C1. The gather step never fails, and every tool record it writes has the commit
  list of its file, which is not empty; its \<open>created\<close> is the date of the last commit
  of that list (the oldest, the log being newest first) and its \<open>updated\<close> the date of
  the first one (the newest).
\<close>

theorem created_updated_dates:
  "\<exists>ts out. main e files = Inr (files(gathered_links_json \<mapsto> Json ts), out) \<and>
     (\<forall>t\<in>set ts. commits t = get_file_commit_details (git_log e) (file_path t) \<and> commits t \<noteq> []
        \<and> created t = Some (date (last (commits t)))
        \<and> updated t = Some (date (hd (commits t))))"
  using main_tools[of e "\<lambda>t. commits t = get_file_commit_details (git_log e) (file_path t)
        \<and> commits t \<noteq> [] \<and> created t = Some (date (last (commits t)))
        \<and> updated t = Some (date (hd (commits t)))" files]
  by blast

theorem created_updated_dates_witness:
  "main example_env Map.empty =
     Inr ([gathered_links_json \<mapsto> Json [example_c, example_b]],
          [u ''Gathered data for 2 tool(s)'', u ''  - C (1 commits)'', u ''  - B (2 commits)'']) \<and>
   created example_b = Some (date (last (commits example_b))) \<and>
   updated example_b = Some (date (hd (commits example_b))) \<and>
   created example_b = Some (u ''2024-01-01T09:00:00+00:00'') \<and>
   updated example_b = Some (u ''2024-02-01T09:00:00+00:00'')"
proof -
  from created_updated_dates[of example_env Map.empty] obtain ts out where
    m: "main example_env Map.empty = Inr ([gathered_links_json \<mapsto> Json ts], out)"
    and a: "\<forall>t\<in>set ts. commits t = get_file_commit_details (git_log example_env) (file_path t)
        \<and> commits t \<noteq> [] \<and> created t = Some (date (last (commits t)))
        \<and> updated t = Some (date (hd (commits t)))"
    by blast
  from m have "ts = [example_c, example_b]"
    unfolding example_main by (rule json_written_inj[symmetric])
  with a have "created example_b = Some (date (last (commits example_b)))"
    and "updated example_b = Some (date (hd (commits example_b)))" by simp_all
  moreover have "created example_b = Some (u ''2024-01-01T09:00:00+00:00'')"
    and "updated example_b = Some (u ''2024-02-01T09:00:00+00:00'')"
    by (simp_all add: example_b_def)
  ultimately show ?thesis using example_main[of Map.empty] by simp
qed

text \<open>
  Claim C4. In every tool record written to gathered\_links.json the list \<open>urls\<close> has
  no entry twice, and its entries are exactly the URLs extracted from the messages of the
  record's commits.
\<close>

theorem urls_deduplicated:
  "\<exists>ts out. main e files = Inr (files(gathered_links_json \<mapsto> Json ts), out) \<and>
     (\<forall>t\<in>set ts. distinct (urls t) \<and>
        set (urls t) = (\<Union>c\<in>set (commits t). set (extract_urls (message c))))"
  using main_tools[of e "\<lambda>t. distinct (urls t) \<and>
        set (urls t) = (\<Union>c\<in>set (commits t). set (extract_urls (message c)))" files]
  by fastforce

theorem urls_deduplicated_witness:
  "main example_env Map.empty =
     Inr ([gathered_links_json \<mapsto> Json [example_c, example_b]],
          [u ''Gathered data for 2 tool(s)'', u ''  - C (1 commits)'', u ''  - B (2 commits)'']) \<and>
   concat (map (\<lambda>c. extract_urls (message c)) (commits example_b)) =
     [u ''https://example.com/b'', u ''https://example.com/b'', u ''https://example.com/b''] \<and>
   urls example_b = [u ''https://example.com/b''] \<and>
   distinct (urls example_b)"
proof -
  from urls_deduplicated[of example_env Map.empty] obtain ts out where
    m: "main example_env Map.empty = Inr ([gathered_links_json \<mapsto> Json ts], out)"
    and a: "\<forall>t\<in>set ts. distinct (urls t) \<and>
        set (urls t) = (\<Union>c\<in>set (commits t). set (extract_urls (message c)))"
    by blast
  from m have "ts = [example_c, example_b]"
    unfolding example_main by (rule json_written_inj[symmetric])
  with a have "distinct (urls example_b)" by simp
  moreover have "concat (map (\<lambda>c. extract_urls (message c)) (commits example_b)) =
     [u ''https://example.com/b'', u ''https://example.com/b'', u ''https://example.com/b'']"
    by (simp add: example_b_def url_defs str_defs)
  moreover have "urls example_b = [u ''https://example.com/b'']" by (simp add: example_b_def)
  ultimately show ?thesis using example_main[of Map.empty] by simp
qed

text \<open>
  Claim C8. The list written to gathered\_links.json is the gathered list sorted by
  \<open>updated\<close> in descending order of Python's string comparison: the same records, each
  key at least the next one's, records of equal key in the order they were gathered. A
  missing \<open>updated\<close> counts as the empty string, the least key, so after a record
  without \<open>updated\<close> only records with the empty key follow.
\<close>

theorem gathered_sorted:
  "\<exists>ts0 ts out. gather_loop e [] (html_files e) = Inr ts0 \<and>
     main e files = Inr (files(gathered_links_json \<mapsto> Json ts), out) \<and>
     sorted_wrt (\<lambda>a b. updated_key b \<le> updated_key a) ts \<and>
     mset ts = mset ts0 \<and>
     (\<forall>v. filter (\<lambda>t. updated_key t = v) ts = filter (\<lambda>t. updated_key t = v) ts0) \<and>
     (\<forall>t. updated_key t = (case updated t of None \<Rightarrow> [] | Some s \<Rightarrow> s)) \<and>
     (\<forall>i j. i < j \<longrightarrow> j < length ts \<longrightarrow> updated (ts ! i) = None \<longrightarrow> updated_key (ts ! j) = [])"
proof -
  from main_tools[of e "\<lambda>t. True" files] obtain ts0 where
    l: "gather_loop e [] (html_files e) = Inr ts0" and
    m: "main e files = Inr (files(gathered_links_json \<mapsto> Json (sort_reverse updated_key ts0)),
                               gather_report (sort_reverse updated_key ts0))"
    by blast
  let ?ts = "sort_reverse updated_key ts0"
  have s: "sorted_wrt (\<lambda>a b. updated_key b \<le> updated_key a) ?ts" by (rule sort_reverse_sorted)
  have k: "\<forall>t. updated_key t = (case updated t of None \<Rightarrow> [] | Some s \<Rightarrow> s)"
    by (simp add: updated_key_def split: option.splits)
  have "updated_key (?ts ! j) = []" if "i < j" "j < length ?ts" "updated (?ts ! i) = None" for i j
  proof -
    from s that have "updated_key (?ts ! j) \<le> updated_key (?ts ! i)"
      by (simp add: sorted_wrt_iff_nth_less)
    moreover from that have "updated_key (?ts ! i) = []" by (simp add: updated_key_def)
    ultimately show ?thesis by simp
  qed
  with l m s k show ?thesis
    using sort_reverse_mset[of updated_key ts0] sort_reverse_stable[of updated_key _ ts0]
    by blast
qed

theorem gathered_sorted_witness:
  "gather_loop example_env [] (html_files example_env) = Inr [example_b, example_c] \<and>
   main example_env Map.empty =
     Inr ([gathered_links_json \<mapsto> Json [example_c, example_b]],
          [u ''Gathered data for 2 tool(s)'', u ''  - C (1 commits)'', u ''  - B (2 commits)'']) \<and>
   updated_key example_b \<le> updated_key example_c \<and>
   updated_key example_b = u ''2024-02-01T09:00:00+00:00'' \<and>
   updated_key example_c = u ''2024-03-01T09:00:00+00:00''"
proof -
  from gathered_sorted[of example_env Map.empty] obtain ts where
    m: "\<exists>out. main example_env Map.empty = Inr ([gathered_links_json \<mapsto> Json ts], out)"
    and s: "sorted_wrt (\<lambda>a b. updated_key b \<le> updated_key a) ts"
    by blast
  from m have "ts = [example_c, example_b]"
    unfolding example_main by (auto dest: map_upd_eqD1)
  with s have "updated_key example_b \<le> updated_key example_c" by simp
  then show ?thesis using example_main[of Map.empty] example_loop example_keys by simp
qed

lemma extract_title_files: "extract_title (e\<lparr>html_files := x\<rparr>) p = extract_title e p"
  by (simp add: extract_title_def extract_title_try_def split: sum.splits option.splits)

lemma extract_description_files:
  "extract_description (e\<lparr>html_files := x\<rparr>) p = extract_description e p"
  by (simp add: extract_description_def extract_description_try_def split: sum.splits option.splits)

lemma gather_step_files: "gather_step (e\<lparr>html_files := x\<rparr>) tools p = gather_step e tools p"
  by (simp add: gather_step_def Let_def extract_title_files extract_description_files)

lemma gather_loop_files: "gather_loop (e\<lparr>html_files := x\<rparr>) tools ps = gather_loop e tools ps"
  by (induction ps arbitrary: tools) (simp_all add: gather_step_files)

lemma gather_loop_append:
  "gather_loop e tools (ps @ qs) = bind_err (gather_loop e tools ps) (\<lambda>tools'. gather_loop e tools' qs)"
proof (induction ps arbitrary: tools)
  case Nil
  then show ?case by (simp add: bind_err_def)
next
  case (Cons p ps)
  then show ?case by (cases "gather_step e tools p") (simp_all add: bind_err_def)
qed

text \<open>
  Claim C3, as the code has it. A scanned file whose commit log is empty is skipped: the
  loop body leaves the list of tools as it is, the loop goes on with the files after it,
  and the whole run writes and prints what it would without that file in the directory.
  It prints nothing about the file and does not return early.
\<close>

theorem no_history_skipped:
  assumes "get_file_commit_details (git_log e) p = []"
  shows "gather_step e tools p = Inr tools \<and>
         gather_loop e tools (p # ps) = gather_loop e tools ps \<and>
         (html_files e = pre @ p # post \<longrightarrow> main e files = main (e\<lparr>html_files := pre @ post\<rparr>) files)"
proof -
  have s: "gather_step e acc p = Inr acc" for acc
    using assms by (rule gather_step_skip)
  then have l: "gather_loop e acc (p # qs) = gather_loop e acc qs" for acc qs
    by (simp add: bind_err_def)
  have "main e files = main (e\<lparr>html_files := pre @ post\<rparr>) files" if "html_files e = pre @ p # post"
  proof -
    have "gather_loop e [] (pre @ p # post) = gather_loop e [] (pre @ post)"
      by (simp only: gather_loop_append l)
    with that show ?thesis by (simp add: main_def gather_loop_files)
  qed
  with s l show ?thesis by blast
qed

theorem no_history_skipped_witness:
  "get_file_commit_details (git_log example_env) (u ''a.html'') = [] \<and>
   html_files example_env = [] @ u ''a.html'' # [u ''b.html'', u ''c.html'', u ''index.html''] \<and>
   gather_step example_env [] (u ''a.html'') = Inr [] \<and>
   main example_env Map.empty =
     main (example_env\<lparr>html_files := [] @ [u ''b.html'', u ''c.html'', u ''index.html'']\<rparr>) Map.empty"
proof -
  have a: "get_file_commit_details (git_log example_env) (u ''a.html'') = []"
    by (simp add: example_env_def example_commits_a)
  have h: "html_files example_env = [] @ u ''a.html'' # [u ''b.html'', u ''c.html'', u ''index.html'']"
    by (simp add: example_env_def)
  from no_history_skipped[OF a, of "[]" "[]" "[]" "[u ''b.html'', u ''c.html'', u ''index.html'']" Map.empty]
    a h show ?thesis by blast
qed

text \<open>
  The claim as stated fails on the example directory: \<open>a.html\<close> has no commit, yet
  the run goes on to \<open>b.html\<close> and \<open>c.html\<close>, writes their records and prints the
  report of the two tools only.
\<close>

theorem no_history_counterexample:
  "html_files example_env = [u ''a.html'', u ''b.html'', u ''c.html'', u ''index.html''] \<and>
   get_file_commit_details (git_log example_env) (u ''a.html'') = [] \<and>
   main example_env Map.empty =
     Inr ([gathered_links_json \<mapsto> Json [example_c, example_b]],
          [u ''Gathered data for 2 tool(s)'', u ''  - C (1 commits)'', u ''  - B (2 commits)''])"
  using example_main[of Map.empty] by (simp add: example_env_def example_commits_a)

section \<open>The build steps and the pipeline\<close>

lemma format_date_Inr: "\<exists>s. format_date lib fmt d = Inr s"
  by (auto simp: format_date_def split: sum.splits)

lemma map_err_Inr:
  assumes "\<And>x. \<exists>y. f x = Inr y"
  shows "\<exists>ys. map_err f xs = Inr ys"
proof (induction xs)
  case Nil
  then show ?case by simp
next
  case (Cons x xs)
  from assms obtain y where "f x = Inr y" by blast
  with Cons show ?case by (auto simp: bind_err_def)
qed

lemma tool_card_Inr: "\<exists>c. tool_card lib t = Inr c"
proof -
  have "\<exists>s. index_updated lib t = Inr s"
    using format_date_Inr[of lib] by (auto simp: index_updated_def split: option.splits)
  then show ?thesis by (auto simp: tool_card_def bind_err_def)
qed

lemma commit_html_Inr: "\<exists>h. commit_html lib c = Inr h"
proof -
  obtain d where "format_date lib (u ''%B %d, %Y'') (date c) = Inr d"
    using format_date_Inr by blast
  then show ?thesis by (simp add: commit_html_def bind_err_def)
qed

lemma tool_section_Inr: "\<exists>s. tool_section lib t = Inr s"
proof -
  obtain hs where "map_err (commit_html lib) (commits t) = Inr hs"
    using map_err_Inr[of "commit_html lib", OF commit_html_Inr] by blast
  then show ?thesis by (simp add: tool_section_def bind_err_def)
qed

lemma build_index_missing:
  "files gathered_links_json = None \<Longrightarrow> build_index lib files = Inr (files, [not_found_message])"
  by (simp add: build_index_def)

lemma build_colophon_missing:
  "files gathered_links_json = None \<Longrightarrow> build_colophon lib files = Inr (files, [not_found_message])"
  by (simp add: build_colophon_def)

lemma build_index_json:
  assumes "files gathered_links_json = Some (Json ts)"
  shows "\<exists>page. build_index lib files =
           Inr (files(index_html \<mapsto> Text page),
                [u ''Built index.html with '' @ str_nat (length ts) @ u '' tool(s)''])"
proof -
  obtain cs where "map_err (tool_card lib) ts = Inr cs"
    using map_err_Inr[of "tool_card lib", OF tool_card_Inr] by blast
  with assms have "build_index lib files =
           Inr (files(index_html \<mapsto> Text (index_page ts cs)),
                [u ''Built index.html with '' @ str_nat (length ts) @ u '' tool(s)''])"
    by (simp add: build_index_def bind_err_def)
  then show ?thesis by blast
qed

lemma build_colophon_json:
  assumes "files gathered_links_json = Some (Json ts)"
  shows "\<exists>page. build_colophon lib files =
           Inr (files(colophon_html \<mapsto> Text page),
                [u ''Built colophon.html with '' @ str_nat (length ts) @ u '' tool(s)''])"
proof -
  obtain cs where "map_err (tool_section lib) ts = Inr cs"
    using map_err_Inr[of "tool_section lib", OF tool_section_Inr] by blast
  with assms have "build_colophon lib files =
           Inr (files(colophon_html \<mapsto> Text (colophon_page ts cs)),
                [u ''Built colophon.html with '' @ str_nat (length ts) @ u '' tool(s)''])"
    by (simp add: build_colophon_def bind_err_def)
  then show ?thesis by blast
qed

lemma build_index_frame:
  assumes "build_index lib files = Inr (files', out)"
  shows "files' = files \<or> (\<exists>page. files' = files(index_html \<mapsto> Text page))"
proof (cases "files gathered_links_json")
  case None
  with assms show ?thesis by (simp add: build_index_missing)
next
  case (Some d)
  show ?thesis
  proof (cases d)
    case (Text s)
    with Some assms show ?thesis by (simp add: build_index_def)
  next
    case (Json ts)
    with Some build_index_json[of files ts lib] assms show ?thesis by auto
  qed
qed

lemma build_colophon_frame:
  assumes "build_colophon lib files = Inr (files', out)"
  shows "files' = files \<or> (\<exists>page. files' = files(colophon_html \<mapsto> Text page))"
proof (cases "files gathered_links_json")
  case None
  with assms show ?thesis by (simp add: build_colophon_missing)
next
  case (Some d)
  show ?thesis
  proof (cases d)
    case (Text s)
    with Some assms show ?thesis by (simp add: build_colophon_def)
  next
    case (Json ts)
    with Some build_colophon_json[of files ts lib] assms show ?thesis by auto
  qed
qed

lemma output_names:
  "gathered_links_json \<noteq> index_html" "gathered_links_json \<noteq> colophon_html"
  "index_html \<noteq> colophon_html"
  by (simp_all add: gathered_links_json_def index_html_def colophon_html_def u_def)

text \<open>
  Claim C2. When gathered\_links.json is missing, \<open>build_index\<close> and
  \<open>build_colophon\<close> each print the one line that says so and return with every file
  as it was: no page is written, and a page left by an earlier run stays.
\<close>

theorem missing_json_returns_early:
  assumes "files gathered_links_json = None"
  shows "build_index lib files = Inr (files, [not_found_message]) \<and>
         build_colophon lib files = Inr (files, [not_found_message])"
  using assms by (simp add: build_index_missing build_colophon_missing)

theorem missing_json_returns_early_witness:
  "[index_html \<mapsto> Text (u ''old page'')] gathered_links_json = None \<and>
   build_index example_lib [index_html \<mapsto> Text (u ''old page'')] =
     Inr ([index_html \<mapsto> Text (u ''old page'')],
          [u ''Error: gathered_links.json not found. Run gather_links.py first.'']) \<and>
   build_colophon example_lib [index_html \<mapsto> Text (u ''old page'')] =
     Inr ([index_html \<mapsto> Text (u ''old page'')],
          [u ''Error: gathered_links.json not found. Run gather_links.py first.''])"
proof -
  have n: "[index_html \<mapsto> Text (u ''old page'')] gathered_links_json = None"
    using output_names(1) by simp
  from missing_json_returns_early[of "[index_html \<mapsto> Text (u ''old page'')]" example_lib, OF n] n
  show ?thesis
    by (simp add: not_found_message_def)
qed

lemma pipeline_run:
  "\<exists>ts ipage cpage out.
     main e files = Inr (files(gathered_links_json \<mapsto> Json ts), gather_report ts) \<and>
     pipeline e lib files =
       Inr (files(gathered_links_json \<mapsto> Json ts, index_html \<mapsto> Text ipage,
                  colophon_html \<mapsto> Text cpage), out)"
proof -
  from main_tools[of e "\<lambda>t. True" files] obtain ts where
    m: "main e files = Inr (files(gathered_links_json \<mapsto> Json ts), gather_report ts)"
    by blast
  let ?f1 = "files(gathered_links_json \<mapsto> Json ts)"
  have "?f1 gathered_links_json = Some (Json ts)" by simp
  from build_index_json[of ?f1 ts lib, OF this] obtain ipage o2 where
    i: "build_index lib ?f1 = Inr (?f1(index_html \<mapsto> Text ipage), o2)" by blast
  let ?f2 = "?f1(index_html \<mapsto> Text ipage)"
  have "?f2 gathered_links_json = Some (Json ts)" using output_names by simp
  from build_colophon_json[of ?f2 ts lib, OF this] obtain cpage o3 where
    c: "build_colophon lib ?f2 = Inr (?f2(colophon_html \<mapsto> Text cpage), o3)" by blast
  have "pipeline e lib files = Inr (?f2(colophon_html \<mapsto> Text cpage), gather_report ts @ o2 @ o3)"
    by (simp add: pipeline_def bind_err_def m i c)
  with m show ?thesis by blast
qed

text \<open>
  Claim C7. The gather step writes gathered\_links.json and nothing else; the index step
  writes index.html or nothing, the colophon step colophon.html or nothing. A run of the
  three in their order never fails and ends with these three files written, under three
  different names, and every other file as it was before.
\<close>

theorem pipeline_outputs:
  "(\<exists>ts out. main e files = Inr (files(gathered_links_json \<mapsto> Json ts), out)) \<and>
   (\<forall>files' out. build_index lib files = Inr (files', out) \<longrightarrow>
      files' = files \<or> (\<exists>page. files' = files(index_html \<mapsto> Text page))) \<and>
   (\<forall>files' out. build_colophon lib files = Inr (files', out) \<longrightarrow>
      files' = files \<or> (\<exists>page. files' = files(colophon_html \<mapsto> Text page))) \<and>
   (\<exists>ts ipage cpage out.
      pipeline e lib files =
        Inr (files(gathered_links_json \<mapsto> Json ts, index_html \<mapsto> Text ipage,
                   colophon_html \<mapsto> Text cpage), out)) \<and>
   distinct [gathered_links_json, index_html, colophon_html] \<and>
   (\<forall>files' out p. pipeline e lib files = Inr (files', out) \<longrightarrow>
      p \<notin> {gathered_links_json, index_html, colophon_html} \<longrightarrow> files' p = files p)"
proof -
  from pipeline_run[of e files lib] obtain ts ipage cpage out where
    m: "main e files = Inr (files(gathered_links_json \<mapsto> Json ts), gather_report ts)" and
    p: "pipeline e lib files =
       Inr (files(gathered_links_json \<mapsto> Json ts, index_html \<mapsto> Text ipage,
                  colophon_html \<mapsto> Text cpage), out)"
    by blast
  have d: "distinct [gathered_links_json, index_html, colophon_html]"
    using output_names by simp
  have f: "\<forall>files' out p. pipeline e lib files = Inr (files', out) \<longrightarrow>
      p \<notin> {gathered_links_json, index_html, colophon_html} \<longrightarrow> files' p = files p"
    by (auto simp: p)
  from m p d f show ?thesis
    using build_index_frame[of lib files] build_colophon_frame[of lib files] by blast
qed

theorem pipeline_outputs_witness:
  "(\<exists>ts ipage cpage out.
      pipeline example_env example_lib [u ''notes.txt'' \<mapsto> Text (u ''keep'')] =
        Inr ([u ''notes.txt'' \<mapsto> Text (u ''keep''), gathered_links_json \<mapsto> Json ts,
              index_html \<mapsto> Text ipage, colophon_html \<mapsto> Text cpage], out) \<and>
      [u ''notes.txt'' \<mapsto> Text (u ''keep''), gathered_links_json \<mapsto> Json ts,
              index_html \<mapsto> Text ipage, colophon_html \<mapsto> Text cpage] (u ''notes.txt'')
        = Some (Text (u ''keep''))) \<and>
   u ''notes.txt'' \<notin> {gathered_links_json, index_html, colophon_html}"
proof -
  have n: "u ''notes.txt'' \<notin> {gathered_links_json, index_html, colophon_html}"
    by (simp add: gathered_links_json_def index_html_def colophon_html_def u_def)
  from pipeline_outputs[of example_env "[u ''notes.txt'' \<mapsto> Text (u ''keep'')]" example_lib]
  obtain ts ipage cpage out where
    p: "pipeline example_env example_lib [u ''notes.txt'' \<mapsto> Text (u ''keep'')] =
        Inr ([u ''notes.txt'' \<mapsto> Text (u ''keep''), gathered_links_json \<mapsto> Json ts,
              index_html \<mapsto> Text ipage, colophon_html \<mapsto> Text cpage], out)"
    and f: "\<forall>files' out p. pipeline example_env example_lib [u ''notes.txt'' \<mapsto> Text (u ''keep'')]
        = Inr (files', out) \<longrightarrow>
      p \<notin> {gathered_links_json, index_html, colophon_html} \<longrightarrow>
      files' p = [u ''notes.txt'' \<mapsto> Text (u ''keep'')] p"
    by blast
  from f p n have "[u ''notes.txt'' \<mapsto> Text (u ''keep''), gathered_links_json \<mapsto> Json ts,
              index_html \<mapsto> Text ipage, colophon_html \<mapsto> Text cpage] (u ''notes.txt'')
        = [u ''notes.txt'' \<mapsto> Text (u ''keep'')] (u ''notes.txt'')"
    by blast
  with p n show ?thesis by auto
qed

section \<open>The extracted URLs\<close>

lemma lit_Some: "lit p s = Some r \<longleftrightarrow> s = p @ r"
  by (induction p s rule: lit.induct) auto

lemma match_url_Some:
  assumes "match_url cls s = Some (mt, g)"
  shows "\<exists>sopt body. mt = u ''http'' @ sopt @ u ''://'' @ body \<and> (sopt = [] \<or> sopt = [0x73])
           \<and> body \<noteq> [] \<and> (\<forall>c\<in>set body. cls c) \<and> g = mt \<and> (\<exists>rest. s = mt @ rest)"
proof -
  from assms obtain r1 where r1: "lit (u ''http'') s = Some r1"
    by (auto simp: match_url_def split: option.splits)
  with assms obtain r2 where r2: "lit (u ''://'') (snd (opt_s r1)) = Some r2"
    by (auto simp: match_url_def split: option.splits)
  let ?body = "takeWhile cls r2"
  from assms r1 r2 have b: "?body \<noteq> []"
    and mt: "mt = u ''http'' @ fst (opt_s r1) @ u ''://'' @ ?body" and g: "g = mt"
    by (auto simp: match_url_def Let_def split: if_splits)
  have o: "r1 = fst (opt_s r1) @ snd (opt_s r1)" and o2: "fst (opt_s r1) = [] \<or> fst (opt_s r1) = [0x73]"
    by (auto simp: opt_s_def split: list.splits)
  from r1 have "s = u ''http'' @ r1" by (simp add: lit_Some)
  also have "r1 = fst (opt_s r1) @ u ''://'' @ r2" using o r2 by (simp add: lit_Some)
  also have "r2 = ?body @ dropWhile cls r2" by simp
  finally have "s = mt @ dropWhile cls r2" by (simp add: mt)
  moreover have "\<forall>c\<in>set ?body. cls c" by (auto dest: set_takeWhileD)
  ultimately show ?thesis using b mt g o2 by blast
qed

lemma re_findall_all_aux:
  "(\<forall>s mt g. m s = Some (mt, g) \<longrightarrow> P mt) \<longrightarrow> (\<forall>x\<in>set (re_findall m s). P x)"
proof (induction m s rule: re_findall.induct)
  case (1 m)
  then show ?case by simp
next
  case (2 m c cs)
  show ?case
  proof (cases "m (c # cs)")
    case None
    with 2 show ?thesis by simp
  next
    case (Some a)
    obtain mt g where a: "a = (mt, g)" by (cases a)
    from 2(2)[OF Some a[symmetric]] Some a show ?thesis by auto
  qed
qed

lemma re_findall_all:
  assumes "\<And>s mt g. m s = Some (mt, g) \<Longrightarrow> P mt"
  shows "\<forall>x\<in>set (re_findall m s). P x"
  using re_findall_all_aux[of m P s] assms by blast

text \<open>
  Claim C6. Every string that \<open>extract_urls\<close> returns starts with \<open>http://\<close> or
  \<open>https://\<close>, has no whitespace, none of the characters
  \<open>< > " ' ( ) [ ] { }\<close> and no NUL in it, is not empty and does not end with one of
  \<open>. , ; : ! ?\<close>.
\<close>

theorem extract_urls_shape:
  \<open>\<forall>url\<in>set (extract_urls text).
     ((\<exists>rest. url = u ''http://'' @ rest) \<or> (\<exists>rest. url = u ''https://'' @ rest)) \<and>
     (\<forall>c\<in>set url. \<not> isspace c \<and> c \<notin> set (u ''<>"')(][}{'') \<and> c \<noteq> NUL) \<and>
     url \<noteq> [] \<and> last url \<notin> set (u ''.,;:!?'')\<close>
proof
  fix url
  assume "url \<in> set (extract_urls text)"
  then obtain mt where mt: "mt \<in> set (re_findall (match_url url_char) text)"
    and url: "url = rstrip trailing_punct mt"
    by (auto simp: extract_urls_def)
  have "\<forall>x\<in>set (re_findall (match_url url_char) text).
          \<exists>sopt body. x = u ''http'' @ sopt @ u ''://'' @ body \<and> (sopt = [] \<or> sopt = [0x73])
            \<and> (\<forall>c\<in>set body. url_char c)"
    by (rule re_findall_all) (use match_url_Some in blast)
  with mt obtain sopt body where x: "mt = u ''http'' @ sopt @ u ''://'' @ body"
    and sopt: "sopt = [] \<or> sopt = [0x73]" and body: "\<forall>c\<in>set body. url_char c"
    by blast
  define A where "A = u ''http'' @ sopt @ u ''://''"
  have A: "A = u ''http://'' \<or> A = u ''https://''"
    using sopt by (auto simp: A_def u_def)
  then have A_ne: "A \<noteq> []" and A_last: "\<not> trailing_punct (last A)"
    and A_chars: "\<forall>c\<in>set A. url_char c"
    by (auto simp: u_def trailing_punct_def url_char_def isspace_def NUL_def)
  from x have "mt = A @ body" by (simp add: A_def)
  with url have u: "url = A @ rstrip trailing_punct body"
    by (simp add: rstrip_append[of A trailing_punct body, OF A_ne A_last])
  have chars: "\<forall>c\<in>set url. url_char c"
    using A_chars body rstrip_subset[of trailing_punct body] by (auto simp: u)
  from u A_ne have ne: "url \<noteq> []" by simp
  with url have "\<not> trailing_punct (last url)" by (simp add: rstrip_last)
  with u A chars ne show
    \<open>((\<exists>rest. url = u ''http://'' @ rest) \<or> (\<exists>rest. url = u ''https://'' @ rest)) \<and>
     (\<forall>c\<in>set url. \<not> isspace c \<and> c \<notin> set (u ''<>"')(][}{'') \<and> c \<noteq> NUL) \<and>
     url \<noteq> [] \<and> last url \<notin> set (u ''.,;:!?'')\<close>
    by (auto simp: url_char_def trailing_punct_def)
qed

theorem extract_urls_shape_witness:
  "extract_urls (u ''See (https://example.com/a?b=1#c), http://x.org/y.!'') =
     [u ''https://example.com/a?b=1#c'', u ''http://x.org/y''] \<and>
   (\<exists>rest. u ''http://x.org/y'' = u ''http://'' @ rest) \<and>
   last (u ''http://x.org/y'') \<notin> set (u ''.,;:!?'')"
proof -
  have e: "extract_urls (u ''See (https://example.com/a?b=1#c), http://x.org/y.!'') =
     [u ''https://example.com/a?b=1#c'', u ''http://x.org/y'']"
    by (simp add: url_defs str_defs)
  from extract_urls_shape[of "u ''See (https://example.com/a?b=1#c), http://x.org/y.!''"]
  have "((\<exists>rest. u ''http://x.org/y'' = u ''http://'' @ rest)
          \<or> (\<exists>rest. u ''http://x.org/y'' = u ''https://'' @ rest))
        \<and> last (u ''http://x.org/y'') \<notin> set (u ''.,;:!?'')"
    unfolding e by simp
  moreover have "\<not> (\<exists>rest. u ''http://x.org/y'' = u ''https://'' @ rest)"
    by (simp add: u_def)
  ultimately show ?thesis using e by blast
qed

section \<open>The extracted description\<close>











section \<open>The formatted commit message\<close>

subsection \<open>The two predicates\<close>

lemma opens_with_Nil: "opens_with c T []"
  by (simp add: opens_with_def)

lemma opens_with_free: "c \<notin> set s \<Longrightarrow> opens_with c T s"
  by (auto simp: opens_with_def suffix_def)

lemma opens_with_suffix: "opens_with c T s \<Longrightarrow> suffix s' s \<Longrightarrow> opens_with c T s'"
  unfolding opens_with_def by (meson suffix_order.trans)

lemma opens_with_Cons:
  assumes "opens_with c T s" and "x = c \<longrightarrow> (\<exists>p\<in>set T. prefix p (x # s))"
  shows "opens_with c T (x # s)"
  using assms by (auto simp: opens_with_def suffix_Cons)

lemma opens_with_append:
  assumes "opens_with c T a" and "opens_with c T b"
  shows "opens_with c T (a @ b)"
  unfolding opens_with_def
proof (intro allI impI)
  fix t
  assume "suffix (c # t) (a @ b)"
  then have "suffix (c # t) b \<or> (\<exists>xs. c # t = xs @ b \<and> suffix xs a \<and> xs \<noteq> [])"
    unfolding suffix_append by (metis append_Nil suffix_order.refl)
  then consider "suffix (c # t) b" | xs where "c # t = xs @ b" "suffix xs a" "xs \<noteq> []"
    by blast
  then show "\<exists>p\<in>set T. prefix p (c # t)"
  proof cases
    case 1
    with assms(2) show ?thesis by (simp add: opens_with_def)
  next
    case 2
    then obtain t' where xs: "xs = c # t'" by (cases xs) auto
    with 2 assms(1) obtain p where "p \<in> set T" "prefix p (c # t')"
      by (auto simp: opens_with_def)
    moreover from 2 xs have "c # t = (c # t') @ b" by simp
    ultimately show ?thesis by (metis prefix_prefix)
  qed
qed

lemma opens_with_tag:
  assumes "p \<in> set T" and "c \<notin> set (tl p)"
  shows "opens_with c T p"
proof (cases p)
  case Nil
  then show ?thesis by (simp add: opens_with_Nil)
next
  case (Cons x xs)
  with assms have "opens_with c T xs" by (simp add: opens_with_free)
  moreover from assms(1) Cons have "\<exists>q\<in>set T. prefix q (x # xs)" by auto
  ultimately show ?thesis unfolding Cons by (intro opens_with_Cons; blast)
qed

lemma closed_by_free: "c \<notin> set s \<Longrightarrow> closed_by c T s"
  by (auto simp: closed_by_def prefix_def)

lemma closed_by_append:
  assumes "closed_by c T a" and "closed_by c T b"
  shows "closed_by c T (a @ b)"
  unfolding closed_by_def
proof (intro allI impI)
  fix q
  assume "prefix (q @ [c]) (a @ b)"
  then have "prefix (q @ [c]) a \<or> (\<exists>us. q @ [c] = a @ us \<and> prefix us b \<and> us \<noteq> [])"
    unfolding prefix_append by (metis append_Nil2 prefix_order.refl)
  then consider "prefix (q @ [c]) a" | us where "q @ [c] = a @ us" "prefix us b" "us \<noteq> []"
    by blast
  then show "\<exists>p\<in>set T. suffix p q"
  proof cases
    case 1
    with assms(1) show ?thesis by (simp add: closed_by_def)
  next
    case 2
    then obtain us' where us: "us = us' @ [c]"
      by (metis append_butlast_last_id last_appendR last_snoc)
    with 2 assms(2) obtain p where "p \<in> set T" "suffix p us'"
      by (auto simp: closed_by_def)
    moreover from 2 us have "q = a @ us'" by simp
    ultimately show ?thesis by (metis suffix_appendI)
  qed
qed

lemma closed_by_snoc:
  assumes "closed_by c T s" and "x = c \<longrightarrow> (\<exists>p\<in>set T. suffix p s)"
  shows "closed_by c T (s @ [x])"
  using assms by (auto simp: closed_by_def prefix_snoc)

lemma closed_by_end:
  assumes "p \<in> set T" and "c \<notin> set p"
  shows "closed_by c T (p @ [c])"
  using assms by (intro closed_by_snoc closed_by_free) auto

subsection \<open>What a substitution keeps\<close>

text \<open>A text built from single characters and replacements has what both have.\<close>

lemma re_sub_build_aux:
  "Q [] \<longrightarrow> (\<forall>a b. Q a \<longrightarrow> Q b \<longrightarrow> Q (a @ b)) \<longrightarrow> (\<forall>x\<in>set s. Q [x]) \<longrightarrow>
   (\<forall>t mt g. m t = Some (mt, g) \<longrightarrow> Q (repl g)) \<longrightarrow> Q (re_sub m repl s)"
proof (induction m repl s rule: re_sub.induct)
  case (1 m repl)
  then show ?case by simp
next
  case (2 m repl c cs)
  show ?case
  proof (intro impI)
    assume nil: "Q []" and app: "\<forall>a b. Q a \<longrightarrow> Q b \<longrightarrow> Q (a @ b)"
      and chars: "\<forall>x\<in>set (c # cs). Q [x]"
      and rep: "\<forall>t mt g. m t = Some (mt, g) \<longrightarrow> Q (repl g)"
    have cons: "Q (x # xs)" if "Q [x]" "Q xs" for x xs
      using app that by (metis append_Cons append_Nil)
    show "Q (re_sub m repl (c # cs))"
    proof (cases "m (c # cs)")
      case None
      with 2(1)[OF None] nil app chars rep have "Q (re_sub m repl cs)" by simp
      with None chars show ?thesis by (simp add: cons)
    next
      case (Some a)
      obtain mt g where a: "a = (mt, g)" by (cases a)
      from rep Some a have r: "Q (repl g)" by blast
      show ?thesis
      proof (cases "mt = []")
        case True
        from 2(2)[OF Some a[symmetric] True] nil app chars rep have "Q (re_sub m repl cs)" by simp
        with chars have "Q (c # re_sub m repl cs)" by (simp add: cons)
        with r app Some a True show ?thesis by simp
      next
        case False
        have "\<forall>x\<in>set (drop (length mt) (c # cs)). Q [x]"
          using chars by (meson in_set_dropD)
        with 2(3)[OF Some a[symmetric] False] nil app rep
        have "Q (re_sub m repl (drop (length mt) (c # cs)))" by blast
        with r app Some a False show ?thesis by simp
      qed
    qed
  qed
qed

lemma re_sub_build:
  assumes "Q []" and "\<And>a b. Q a \<Longrightarrow> Q b \<Longrightarrow> Q (a @ b)" and "\<And>x. x \<in> set s \<Longrightarrow> Q [x]"
    and "\<And>t mt g. m t = Some (mt, g) \<Longrightarrow> Q (repl g)"
  shows "Q (re_sub m repl s)"
  using re_sub_build_aux[of Q s m repl] assms by blast

text \<open>A prefix in which no match starts stays a prefix.\<close>

lemma re_sub_prefix:
  assumes "prefix p s" and "\<And>v rest. suffix v p \<Longrightarrow> v \<noteq> [] \<Longrightarrow> m (v @ rest) = None"
  shows "prefix p (re_sub m repl s)"
  using assms
proof (induction p arbitrary: s)
  case Nil
  then show ?case by simp
next
  case (Cons x p)
  from Cons.prems(1) obtain s' where s: "s = x # s'" and p: "prefix p s'"
    by (cases s) auto
  from p obtain rest where "s' = p @ rest" by (auto simp: prefix_def)
  with s have "s = (x # p) @ rest" by simp
  with Cons.prems(2)[of "x # p" rest] have none: "m (x # s') = None" using s by simp
  have "prefix p (re_sub m repl s')"
    using p Cons.prems(2) by (intro Cons.IH) (auto simp: suffix_Cons)
  with none s show ?case by simp
qed

text \<open>\<open>opens_with\<close> through a substitution.\<close>

lemma re_sub_opens_aux:
  "opens_with c T s \<longrightarrow>
   (\<forall>t mt g. m t = Some (mt, g) \<longrightarrow> mt \<noteq> [] \<and> opens_with c T (repl g)) \<longrightarrow>
   (\<forall>p\<in>set T. \<forall>v rest. suffix v (tl p) \<longrightarrow> v \<noteq> [] \<longrightarrow> m (v @ rest) = None) \<longrightarrow>
   opens_with c T (re_sub m repl s)"
proof (induction m repl s rule: re_sub.induct)
  case (1 m repl)
  then show ?case by (simp add: opens_with_Nil)
next
  case (2 m repl c' cs)
  show ?case
  proof (intro impI)
    assume ow: "opens_with c T (c' # cs)"
      and rep: "\<forall>t mt g. m t = Some (mt, g) \<longrightarrow> mt \<noteq> [] \<and> opens_with c T (repl g)"
      and tags: "\<forall>p\<in>set T. \<forall>v rest. suffix v (tl p) \<longrightarrow> v \<noteq> [] \<longrightarrow> m (v @ rest) = None"
    show "opens_with c T (re_sub m repl (c' # cs))"
    proof (cases "m (c' # cs)")
      case None
      from ow have "opens_with c T cs"
        by (rule opens_with_suffix) (simp add: suffix_Cons)
      with 2(1)[OF None] rep tags have ih: "opens_with c T (re_sub m repl cs)" by blast
      have "\<exists>p\<in>set T. prefix p (c' # re_sub m repl cs)" if "c' = c"
      proof -
        from ow that obtain p where pT: "p \<in> set T" and pp: "prefix p (c' # cs)"
          unfolding opens_with_def by (metis suffix_order.refl)
        show ?thesis
        proof (cases p)
          case Nil
          with pT have "[] \<in> set T \<and> prefix [] (c' # re_sub m repl cs)" by simp
          then show ?thesis by blast
        next
          case (Cons x p')
          with pp have x: "x = c'" and p': "prefix p' cs" by simp_all
          have "prefix p' (re_sub m repl cs)"
            using p' tags pT Cons by (intro re_sub_prefix) auto
          with x Cons pT have "p \<in> set T \<and> prefix p (c' # re_sub m repl cs)" by simp
          then show ?thesis by blast
        qed
      qed
      with ih None show ?thesis by (simp add: opens_with_Cons)
    next
      case (Some a)
      obtain mt g where a: "a = (mt, g)" by (cases a)
      from rep Some a have ne: "mt \<noteq> []" and r: "opens_with c T (repl g)" by blast+
      from ow have "opens_with c T (drop (length mt) (c' # cs))"
        by (rule opens_with_suffix) (rule suffix_drop)
      with 2(3)[OF Some a[symmetric] ne] rep tags
      have "opens_with c T (re_sub m repl (drop (length mt) (c' # cs)))" by blast
      with r Some a ne show ?thesis by (simp add: opens_with_append)
    qed
  qed
qed

lemma re_sub_opens:
  assumes "opens_with c T s"
    and "\<And>t mt g. m t = Some (mt, g) \<Longrightarrow> mt \<noteq> [] \<and> opens_with c T (repl g)"
    and "\<And>p v rest. p \<in> set T \<Longrightarrow> suffix v (tl p) \<Longrightarrow> v \<noteq> [] \<Longrightarrow> m (v @ rest) = None"
  shows "opens_with c T (re_sub m repl s)"
  using re_sub_opens_aux[of c T s m repl] assms by blast

text \<open>
  \<open>closed_by\<close> through a substitution. \<open>a\<close> is the text read so far and \<open>a'\<close> the
  text written for it: whatever of \<open>T\<close> ends the one, with any continuation, ends the
  other.
\<close>

lemma re_sub_closed_aux:
  "(\<forall>t mt g. m t = Some (mt, g) \<longrightarrow>
      mt \<noteq> [] \<and> prefix mt t \<and> (\<forall>p\<in>set T. last mt \<notin> set p) \<and> closed_by c T (repl g)) \<longrightarrow>
   (\<forall>a a'. (\<forall>p\<in>set T. \<forall>w. suffix p (a @ w) \<longrightarrow> suffix p (a' @ w)) \<longrightarrow>
      closed_by c T (a @ s) \<longrightarrow> closed_by c T a' \<longrightarrow> closed_by c T (a' @ re_sub m repl s))"
proof (induction m repl s rule: re_sub.induct)
  case (1 m repl)
  then show ?case by simp
next
  case (2 m repl x xs)
  show ?case
  proof (intro impI allI)
    fix a a'
    assume rep: "\<forall>t mt g. m t = Some (mt, g) \<longrightarrow>
      mt \<noteq> [] \<and> prefix mt t \<and> (\<forall>p\<in>set T. last mt \<notin> set p) \<and> closed_by c T (repl g)"
      and rel: "\<forall>p\<in>set T. \<forall>w. suffix p (a @ w) \<longrightarrow> suffix p (a' @ w)"
      and cin: "closed_by c T (a @ x # xs)" and cout: "closed_by c T a'"
    show "closed_by c T (a' @ re_sub m repl (x # xs))"
    proof (cases "m (x # xs)")
      case None
      have rel': "\<forall>p\<in>set T. \<forall>w. suffix p ((a @ [x]) @ w) \<longrightarrow> suffix p ((a' @ [x]) @ w)"
        using rel by simp
      have "\<exists>p\<in>set T. suffix p a'" if "x = c"
      proof -
        from cin that obtain p where "p \<in> set T" "suffix p a"
          unfolding closed_by_def by (metis append.assoc append_Cons append_Nil prefixI)
        with rel[rule_format, of p "[]"] show ?thesis by auto
      qed
      with cout have "closed_by c T (a' @ [x])" by (simp add: closed_by_snoc)
      moreover from cin have "closed_by c T ((a @ [x]) @ xs)" by simp
      ultimately have "closed_by c T ((a' @ [x]) @ re_sub m repl xs)"
        using 2(1)[OF None] rep rel' by blast
      with None show ?thesis by simp
    next
      case (Some r)
      obtain mt g where r: "r = (mt, g)" by (cases r)
      from rep Some r have ne: "mt \<noteq> []" and pre: "prefix mt (x # xs)"
        and la: "\<forall>p\<in>set T. last mt \<notin> set p" and cr: "closed_by c T (repl g)"
        by blast+
      from pre have split: "x # xs = mt @ drop (length mt) (x # xs)"
        by (metis append_eq_conv_conj prefix_def)
      have rel': "\<forall>p\<in>set T. \<forall>w. suffix p ((a @ mt) @ w) \<longrightarrow> suffix p ((a' @ repl g) @ w)"
      proof (intro ballI allI impI)
        fix p w
        assume pT: "p \<in> set T" and "suffix p ((a @ mt) @ w)"
        then have "suffix p w \<or> (\<exists>p'. p = p' @ w \<and> suffix p' (a @ mt) \<and> p' \<noteq> [])"
          unfolding suffix_append[of p "a @ mt" w] by (metis append_Nil suffix_order.refl)
        then show "suffix p ((a' @ repl g) @ w)"
        proof
          assume "suffix p w"
          then show ?thesis by (rule suffix_appendI)
        next
          assume "\<exists>p'. p = p' @ w \<and> suffix p' (a @ mt) \<and> p' \<noteq> []"
          then obtain p' where p: "p = p' @ w" and s: "suffix p' (a @ mt)" and n: "p' \<noteq> []"
            by blast
          from s n ne have "last p' = last mt"
            by (metis last_appendR suffix_def)
          with n p have "last mt \<in> set p" by (metis last_in_set Un_iff set_append)
          with la pT show ?thesis by blast
        qed
      qed
      from cin split have "closed_by c T ((a @ mt) @ drop (length mt) (x # xs))"
        by (metis append.assoc)
      moreover from cout cr have "closed_by c T (a' @ repl g)" by (rule closed_by_append)
      ultimately have "closed_by c T ((a' @ repl g) @ re_sub m repl (drop (length mt) (x # xs)))"
        using 2(3)[OF Some r[symmetric] ne] rep rel' by blast
      with Some r ne show ?thesis by simp
    qed
  qed
qed

lemma re_sub_closed:
  assumes "closed_by c T s"
    and "\<And>t mt g. m t = Some (mt, g) \<Longrightarrow>
      mt \<noteq> [] \<and> prefix mt t \<and> (\<forall>p\<in>set T. last mt \<notin> set p) \<and> closed_by c T (repl g)"
  shows "closed_by c T (re_sub m repl s)"
proof -
  have "closed_by c T []" by (simp add: closed_by_def)
  with re_sub_closed_aux[of m T c repl s] assms show ?thesis
    by (metis append_Nil)
qed

subsection \<open>Newlines to line breaks\<close>

lemma br_prefix:
  "prefix p s \<Longrightarrow> 0xA \<notin> set p \<Longrightarrow> prefix p (concat (map br_newline s))"
proof (induction p arbitrary: s)
  case Nil
  then show ?case by simp
next
  case (Cons x p)
  then obtain s' where "s = x # s'" "prefix p s'" by (cases s) auto
  with Cons show ?case by (simp add: br_newline_def)
qed

lemma br_same: "0xA \<notin> set p \<Longrightarrow> concat (map br_newline p) = p"
  by (induction p) (auto simp: br_newline_def)

lemma br_suffix:
  assumes "suffix p s" and "0xA \<notin> set p"
  shows "suffix p (concat (map br_newline s))"
proof -
  from assms(1) obtain q where "s = q @ p" by (auto simp: suffix_def)
  with assms(2) show ?thesis by (simp add: br_same suffix_def)
qed

lemma br_opens:
  assumes "opens_with c T s" and "\<And>p. p \<in> set T \<Longrightarrow> 0xA \<notin> set p" and "c \<noteq> 0xA"
    and "opens_with c T (u ''<br>'' @ [0xA])"
  shows "opens_with c T (concat (map br_newline s))"
  using assms(1)
proof (induction s)
  case Nil
  then show ?case by (simp add: opens_with_Nil)
next
  case (Cons x s)
  from Cons.prems have "opens_with c T s"
    by (rule opens_with_suffix) (simp add: suffix_Cons)
  then have ih: "opens_with c T (concat (map br_newline s))" by (rule Cons.IH)
  show ?case
  proof (cases "x = 0xA")
    case True
    then have "concat (map br_newline (x # s)) = (u ''<br>'' @ [0xA]) @ concat (map br_newline s)"
      by (simp add: br_newline_def)
    with opens_with_append[OF assms(4) ih] show ?thesis by (simp only:)
  next
    case False
    have "\<exists>p\<in>set T. prefix p (x # concat (map br_newline s))" if "x = c"
    proof -
      from Cons.prems that obtain p where pT: "p \<in> set T" and pp: "prefix p (x # s)"
        unfolding opens_with_def by (metis suffix_order.refl)
      from pp assms(2)[OF pT] have "prefix p (concat (map br_newline (x # s)))"
        by (rule br_prefix)
      with False pT have "p \<in> set T \<and> prefix p (x # concat (map br_newline s))"
        by (simp add: br_newline_def)
      then show ?thesis by blast
    qed
    then have "opens_with c T (x # concat (map br_newline s))"
      using ih by (intro opens_with_Cons; blast)
    moreover have "concat (map br_newline (x # s)) = x # concat (map br_newline s)"
      using False by (simp add: br_newline_def)
    ultimately show ?thesis by (simp only:)
  qed
qed

lemma br_closed:
  assumes "closed_by c T s" and "\<And>p. p \<in> set T \<Longrightarrow> 0xA \<notin> set p" and "c \<noteq> 0xA"
    and "closed_by c T (u ''<br>'' @ [0xA])"
  shows "closed_by c T (concat (map br_newline s))"
  using assms(1)
proof (induction s rule: rev_induct)
  case Nil
  then show ?case by (simp add: closed_by_def)
next
  case (snoc x s)
  from snoc.prems have "closed_by c T s"
    unfolding closed_by_def by (meson prefix_append)
  then have ih: "closed_by c T (concat (map br_newline s))" by (rule snoc.IH)
  show ?case
  proof (cases "x = 0xA")
    case True
    then have "concat (map br_newline (s @ [x])) = concat (map br_newline s) @ (u ''<br>'' @ [0xA])"
      by (simp add: br_newline_def)
    with closed_by_append[OF ih assms(4)] show ?thesis by (simp only:)
  next
    case False
    have "\<exists>p\<in>set T. suffix p (concat (map br_newline s))" if "x = c"
    proof -
      from snoc.prems that obtain p where pT: "p \<in> set T" and ps: "suffix p s"
        unfolding closed_by_def by (metis prefix_order.refl)
      from ps assms(2)[OF pT] have "suffix p (concat (map br_newline s))" by (rule br_suffix)
      with pT show ?thesis by blast
    qed
    then have "closed_by c T (concat (map br_newline s) @ [x])"
      using ih by (intro closed_by_snoc; blast)
    moreover have "concat (map br_newline (s @ [x])) = concat (map br_newline s) @ [x]"
      using False by (simp add: br_newline_def)
    ultimately show ?thesis by (simp only:)
  qed
qed

subsection \<open>The escaped text\<close>

lemma escape_char_free: "lt \<notin> set (escape_char c) \<and> gt \<notin> set (escape_char c)"
  by (simp add: escape_char_def u_def lt_def gt_def amp_def)

lemma html_escape_free: "lt \<notin> set (html_escape s) \<and> gt \<notin> set (html_escape s)"
  using escape_char_free by (auto simp: html_escape_def)

lemma entity_tails: "p \<in> set entities \<Longrightarrow> amp \<notin> set (tl p)"
  by (auto simp: entities_def u_def amp_def)

lemma escape_char_entity:
  "c = amp \<or> c = lt \<or> c = gt \<or> c = 0x22 \<or> c = 0x27 \<Longrightarrow> escape_char c \<in> set entities"
  by (elim disjE) (simp_all add: escape_char_def entities_def lt_def gt_def amp_def)

lemma escape_char_amp: "opens_with amp entities (escape_char c)"
proof (cases "c = amp \<or> c = lt \<or> c = gt \<or> c = 0x22 \<or> c = 0x27")
  case True
  then have e: "escape_char c \<in> set entities" by (rule escape_char_entity)
  from e entity_tails[OF e] show ?thesis by (rule opens_with_tag)
next
  case False
  then have "amp \<notin> set (escape_char c)"
    by (simp add: escape_char_def)
  then show ?thesis by (rule opens_with_free)
qed

lemma html_escape_amp: "opens_with amp entities (html_escape s)"
proof (induction s)
  case Nil
  then show ?case by (simp add: html_escape_def opens_with_Nil)
next
  case (Cons c s)
  have "html_escape (c # s) = escape_char c @ html_escape s" by (simp add: html_escape_def)
  with opens_with_append[OF escape_char_amp Cons] show ?case by simp
qed

subsection \<open>The matchers\<close>

lemma no_match_by_first:
  assumes "\<And>x xs r. m (x # xs) = Some r \<Longrightarrow> x = k" and "k \<notin> set q"
    and "suffix v q" and "v \<noteq> []"
  shows "m (v @ rest) = None"
proof (rule ccontr)
  assume "m (v @ rest) \<noteq> None"
  then obtain r where r: "m (v @ rest) = Some r" by auto
  from assms(4) obtain x xs where v: "v = x # xs" by (cases v) auto
  with r assms(1)[of x "xs @ rest" r] have "x = k" by simp
  moreover from v assms(3) have "x \<in> set q" by (auto simp: suffix_def)
  ultimately show False using assms(2) by simp
qed

lemma match_url_first: "match_url cls (x # xs) = Some r \<Longrightarrow> x = 0x68"
  by (auto simp: match_url_def u_def split: option.splits if_splits)

lemma match_url_link:
  assumes "match_url link_char t = Some (mt, g)"
  shows "mt \<noteq> [] \<and> lt \<notin> set g \<and> gt \<notin> set g \<and> amp \<notin> set g"
proof -
  from match_url_Some[OF assms] obtain sopt body where
    mt: "mt = u ''http'' @ sopt @ u ''://'' @ body" and sopt: "sopt = [] \<or> sopt = [0x73]"
    and body: "\<forall>c\<in>set body. link_char c" and g: "g = mt"
    by blast
  from body have "lt \<notin> set body \<and> gt \<notin> set body \<and> amp \<notin> set body"
    by (auto simp: link_char_def)
  with mt sopt g show ?thesis by (auto simp: u_def lt_def gt_def amp_def)
qed

lemma match_issue_first: "match_issue (x # xs) = Some r \<Longrightarrow> x = 0x23"
  by (auto simp: match_issue_def split: if_splits)

lemma match_issue_Some:
  assumes "match_issue t = Some (mt, g)"
  shows "mt = 0x23 # g \<and> g \<noteq> [] \<and> (\<forall>c\<in>set g. is_digit c) \<and> prefix mt t"
proof -
  from assms obtain cs where t: "t = 0x23 # cs" and g: "g = takeWhile is_digit cs"
    and mt: "mt = 0x23 # g" and ne: "g \<noteq> []"
    by (auto simp: match_issue_def split: list.splits if_splits)
  have "\<forall>c\<in>set g. is_digit c" unfolding g by (auto dest: set_takeWhileD)
  moreover have "prefix mt t" unfolding mt t g by (simp add: takeWhile_is_prefix)
  ultimately show ?thesis using mt ne by simp
qed

lemma is_digit_range: "is_digit c \<Longrightarrow> 0x30 \<le> c \<and> (c \<le> 0x39 \<or> 0x660 \<le> c)"
  by (auto simp: is_digit_def nd_ranges_def)

lemma digits_free:
  assumes "\<forall>c\<in>set g. is_digit c"
  shows "lt \<notin> set g" "gt \<notin> set g" "amp \<notin> set g"
  using assms is_digit_range by (fastforce simp: lt_def gt_def amp_def)+

subsection \<open>The replacements\<close>

lemma tag_start_tails: "p \<in> set tag_starts \<Longrightarrow> lt \<notin> set (tl p)"
  by (auto simp: tag_starts_def u_def lt_def)

lemma url_anchor_lt:
  assumes "lt \<notin> set g"
  shows "opens_with lt tag_starts (url_anchor g)"
proof -
  have a: \<open>opens_with lt tag_starts (u ''<a href="'')\<close>
    by (rule opens_with_tag[OF _ tag_start_tails]) (simp_all add: tag_starts_def)
  have b: \<open>opens_with lt tag_starts (u ''" target="_blank" rel="noopener">'')\<close>
    by (rule opens_with_free) (simp add: u_def lt_def)
  have c: "opens_with lt tag_starts (u ''</a>'')"
    by (rule opens_with_tag[OF _ tag_start_tails]) (simp_all add: tag_starts_def)
  from assms have g: "opens_with lt tag_starts g" by (rule opens_with_free)
  show ?thesis
    unfolding url_anchor_def by (intro opens_with_append a b c g)
qed

lemma url_anchor_amp:
  assumes "amp \<notin> set g"
  shows "opens_with amp entities (url_anchor g)"
  by (rule opens_with_free) (use assms in \<open>simp add: url_anchor_def u_def amp_def\<close>)

lemma closed_by_quote: \<open>closed_by gt tag_ends (u ''">'')\<close>
proof -
  have \<open>closed_by gt tag_ends (u ''"'' @ [gt])\<close>
    by (rule closed_by_end) (simp_all add: tag_ends_def u_def gt_def)
  then show ?thesis by (simp add: u_def gt_def)
qed

lemma closed_by_end_a: "closed_by gt tag_ends (u ''</a>'')"
proof -
  have "closed_by gt tag_ends (u ''</a'' @ [gt])"
    by (rule closed_by_end) (simp_all add: tag_ends_def u_def gt_def)
  then show ?thesis by (simp add: u_def gt_def)
qed

lemma url_anchor_gt:
  assumes "gt \<notin> set g"
  shows "closed_by gt tag_ends (url_anchor g)"
proof -
  have a: \<open>closed_by gt tag_ends (u ''<a href="'')\<close>
    by (rule closed_by_free) (simp add: u_def gt_def)
  have b: \<open>closed_by gt tag_ends (u ''" target="_blank" rel="noopener'')\<close>
    by (rule closed_by_free) (simp add: u_def gt_def)
  from assms have g: "closed_by gt tag_ends g" by (rule closed_by_free)
  have \<open>url_anchor g = u ''<a href="'' @ g @ u ''" target="_blank" rel="noopener'' @ u ''">'' @ g @ u ''</a>''\<close>
    by (simp add: url_anchor_def u_def)
  then show ?thesis
    by (simp only:) (intro closed_by_append a b g closed_by_quote closed_by_end_a)
qed

lemma issue_anchor_lt:
  assumes "lt \<notin> set g"
  shows "opens_with lt tag_starts (issue_anchor g)"
proof -
  have a: \<open>opens_with lt tag_starts (u ''<a href="'')\<close>
    by (rule opens_with_tag[OF _ tag_start_tails]) (simp_all add: tag_starts_def)
  have b: \<open>opens_with lt tag_starts (u ''https://github.com/'' @ GITHUB_REPO @ u ''/issues/'')\<close>
    by (rule opens_with_free) (simp add: GITHUB_REPO_def u_def lt_def)
  have c: \<open>opens_with lt tag_starts (u ''">#'')\<close>
    by (rule opens_with_free) (simp add: u_def lt_def)
  have d: "opens_with lt tag_starts (u ''</a>'')"
    by (rule opens_with_tag[OF _ tag_start_tails]) (simp_all add: tag_starts_def)
  from assms have g: "opens_with lt tag_starts g" by (rule opens_with_free)
  have \<open>issue_anchor g = u ''<a href="'' @ (u ''https://github.com/'' @ GITHUB_REPO @ u ''/issues/'')
      @ g @ u ''">#'' @ g @ u ''</a>''\<close>
    by (simp add: issue_anchor_def u_def)
  then show ?thesis
    by (simp only:) (intro opens_with_append a b c d g)
qed

lemma issue_anchor_amp:
  assumes "amp \<notin> set g"
  shows "opens_with amp entities (issue_anchor g)"
  by (rule opens_with_free)
    (use assms in \<open>simp add: issue_anchor_def GITHUB_REPO_def u_def amp_def\<close>)

lemma issue_anchor_gt:
  assumes "gt \<notin> set g"
  shows "closed_by gt tag_ends (issue_anchor g)"
proof -
  have a: \<open>closed_by gt tag_ends (u ''<a href="https://github.com/'' @ GITHUB_REPO @ u ''/issues/'')\<close>
    by (rule closed_by_free) (simp add: GITHUB_REPO_def u_def gt_def)
  have b: \<open>closed_by gt tag_ends (u ''#'')\<close>
    by (rule closed_by_free) (simp add: u_def gt_def)
  from assms have g: "closed_by gt tag_ends g" by (rule closed_by_free)
  have \<open>issue_anchor g = (u ''<a href="https://github.com/'' @ GITHUB_REPO @ u ''/issues/'')
      @ g @ u ''">'' @ u ''#'' @ g @ u ''</a>''\<close>
    by (simp add: issue_anchor_def u_def)
  then show ?thesis
    by (simp only:) (intro closed_by_append a b g closed_by_quote closed_by_end_a)
qed

subsection \<open>The stages of \<open>format_commit_message\<close>\<close>

lemma linked_lt: "opens_with lt tag_starts (re_sub (match_url link_char) url_anchor (html_escape s))"
proof (rule re_sub_build)
  show "opens_with lt tag_starts []" by (rule opens_with_Nil)
  show "opens_with lt tag_starts (a @ b)"
    if "opens_with lt tag_starts a" "opens_with lt tag_starts b" for a b
    using that by (rule opens_with_append)
  show "opens_with lt tag_starts [x]" if "x \<in> set (html_escape s)" for x
    using that html_escape_free[of s] by (intro opens_with_free) auto
  show "opens_with lt tag_starts (url_anchor g)" if "match_url link_char t = Some (mt, g)" for t mt g
    using match_url_link[OF that] by (intro url_anchor_lt) simp
qed

lemma linked_gt: "closed_by gt tag_ends (re_sub (match_url link_char) url_anchor (html_escape s))"
proof (rule re_sub_build)
  show "closed_by gt tag_ends []" by (simp add: closed_by_def)
  show "closed_by gt tag_ends (a @ b)"
    if "closed_by gt tag_ends a" "closed_by gt tag_ends b" for a b
    using that by (rule closed_by_append)
  show "closed_by gt tag_ends [x]" if "x \<in> set (html_escape s)" for x
    using that html_escape_free[of s] by (intro closed_by_free) auto
  show "closed_by gt tag_ends (url_anchor g)" if "match_url link_char t = Some (mt, g)" for t mt g
    using match_url_link[OF that] by (intro url_anchor_gt) simp
qed

lemma entity_tails_h: "p \<in> set entities \<Longrightarrow> 0x68 \<notin> set (tl p)"
  by (auto simp: entities_def u_def)

lemma linked_amp: "opens_with amp entities (re_sub (match_url link_char) url_anchor (html_escape s))"
proof (rule re_sub_opens)
  show "opens_with amp entities (html_escape s)" by (rule html_escape_amp)
  show "mt \<noteq> [] \<and> opens_with amp entities (url_anchor g)"
    if "match_url link_char t = Some (mt, g)" for t mt g
    using match_url_link[OF that] by (simp add: url_anchor_amp)
  show "match_url link_char (v @ rest) = None"
    if "p \<in> set entities" "suffix v (tl p)" "v \<noteq> []" for p v rest
    using match_url_first entity_tails_h[OF that(1)] that(2,3) by (rule no_match_by_first)
qed

lemma tag_start_tails_hash: "p \<in> set tag_starts \<Longrightarrow> 0x23 \<notin> set (tl p)"
  by (auto simp: tag_starts_def u_def)

lemma issues_lt:
  assumes "opens_with lt tag_starts s"
  shows "opens_with lt tag_starts (re_sub match_issue issue_anchor s)"
proof (rule re_sub_opens)
  show "opens_with lt tag_starts s" by (rule assms)
  show "mt \<noteq> [] \<and> opens_with lt tag_starts (issue_anchor g)"
    if "match_issue t = Some (mt, g)" for t mt g
    using match_issue_Some[OF that] digits_free(1)[of g] by (simp add: issue_anchor_lt)
  show "match_issue (v @ rest) = None"
    if "p \<in> set tag_starts" "suffix v (tl p)" "v \<noteq> []" for p v rest
    using match_issue_first tag_start_tails_hash[OF that(1)] that(2,3) by (rule no_match_by_first)
qed

lemma entity_no_issue:
  assumes "p \<in> set entities" and "suffix v (tl p)" and "v \<noteq> []"
  shows "match_issue (v @ rest) = None"
proof (cases \<open>p = u ''&#x27;''\<close>)
  case True
  have x: "\<not> is_digit 0x78" using is_digit_range[of "0x78"] by auto
  from assms(2,3) True have "v \<in> set [u ''#x27;'', u ''x27;'', u ''27;'', u ''7;'', u '';'']"
    by (auto simp: u_def suffix_Cons)
  then show ?thesis using x by (auto simp: match_issue_def u_def)
next
  case False
  with assms(1) have "0x23 \<notin> set (tl p)" by (auto simp: entities_def u_def)
  with match_issue_first show ?thesis using assms(2,3) by (rule no_match_by_first)
qed

lemma issues_amp:
  assumes "opens_with amp entities s"
  shows "opens_with amp entities (re_sub match_issue issue_anchor s)"
proof (rule re_sub_opens)
  show "opens_with amp entities s" by (rule assms)
  show "mt \<noteq> [] \<and> opens_with amp entities (issue_anchor g)"
    if "match_issue t = Some (mt, g)" for t mt g
    using match_issue_Some[OF that] digits_free(3)[of g] by (simp add: issue_anchor_amp)
  show "match_issue (v @ rest) = None"
    if "p \<in> set entities" "suffix v (tl p)" "v \<noteq> []" for p v rest
    using that by (rule entity_no_issue)
qed

lemma tag_end_chars: "p \<in> set tag_ends \<Longrightarrow> is_digit c \<Longrightarrow> c \<notin> set p"
  using is_digit_range[of c] by (auto simp: tag_ends_def u_def)

lemma issues_gt:
  assumes "closed_by gt tag_ends s"
  shows "closed_by gt tag_ends (re_sub match_issue issue_anchor s)"
proof (rule re_sub_closed)
  show "closed_by gt tag_ends s" by (rule assms)
  show "mt \<noteq> [] \<and> prefix mt t \<and> (\<forall>p\<in>set tag_ends. last mt \<notin> set p) \<and> closed_by gt tag_ends (issue_anchor g)"
    if "match_issue t = Some (mt, g)" for t mt g
  proof -
    from match_issue_Some[OF that] have mt: "mt = 0x23 # g" and g: "g \<noteq> []"
      and d: "\<forall>c\<in>set g. is_digit c" and p: "prefix mt t" by blast+
    from mt g d have "is_digit (last mt)" by simp
    then have "\<forall>p\<in>set tag_ends. last mt \<notin> set p" by (auto dest: tag_end_chars)
    moreover from d have "closed_by gt tag_ends (issue_anchor g)"
      by (intro issue_anchor_gt digits_free(2))
    ultimately show ?thesis using mt p by simp
  qed
qed

lemma br_line_lt: "opens_with lt tag_starts (u ''<br>'' @ [0xA])"
proof -
  have "opens_with lt tag_starts (u ''<br>'')"
    by (rule opens_with_tag[OF _ tag_start_tails]) (simp_all add: tag_starts_def)
  moreover have "opens_with lt tag_starts [0xA]" by (rule opens_with_free) (simp add: lt_def)
  ultimately show ?thesis by (rule opens_with_append)
qed

lemma br_line_amp: "opens_with amp entities (u ''<br>'' @ [0xA])"
  by (rule opens_with_free) (simp add: u_def amp_def)

lemma br_line_gt: "closed_by gt tag_ends (u ''<br>'' @ [0xA])"
proof -
  have "closed_by gt tag_ends (u ''<br'' @ [gt])"
    by (rule closed_by_end) (simp_all add: tag_ends_def u_def gt_def)
  moreover have "closed_by gt tag_ends [0xA]" by (rule closed_by_free) (simp add: gt_def)
  ultimately have "closed_by gt tag_ends ((u ''<br'' @ [gt]) @ [0xA])" by (rule closed_by_append)
  then show ?thesis by (simp add: u_def gt_def)
qed

lemma format_commit_message_tags:
  "opens_with lt tag_starts (format_commit_message msg) \<and>
   closed_by gt tag_ends (format_commit_message msg) \<and>
   opens_with amp entities (format_commit_message msg)"
proof -
  let ?e3 = "re_sub match_issue issue_anchor (re_sub (match_url link_char) url_anchor (html_escape msg))"
  have f: "format_commit_message msg = concat (map br_newline ?e3)"
    by (simp add: format_commit_message_def)
  have "opens_with lt tag_starts (concat (map br_newline ?e3))"
    using issues_lt[OF linked_lt] _ _ br_line_lt
    by (rule br_opens) (auto simp: tag_starts_def u_def lt_def)
  moreover have "closed_by gt tag_ends (concat (map br_newline ?e3))"
    using issues_gt[OF linked_gt] _ _ br_line_gt
    by (rule br_closed) (auto simp: tag_ends_def u_def gt_def)
  moreover have "opens_with amp entities (concat (map br_newline ?e3))"
    using issues_amp[OF linked_amp] _ _ br_line_amp
    by (rule br_opens) (auto simp: entities_def u_def amp_def)
  ultimately show ?thesis by (simp only: f)
qed

text \<open>
  Claim C10. The message is escaped first: the escaped text has no \<open><\<close> and no
  \<open>>\<close>, and each \<open>&\<close> in it starts an entity. In the text that
  \<open>format_commit_message\<close> returns, every \<open><\<close> starts \<open><a href="\<close>,
  \<open></a>\<close> or \<open><br>\<close>, every \<open>>\<close> comes right after a double quote,
  \<open></a\<close> or \<open><br\<close>, that is, it ends one of these tags, and every \<open>&\<close>
  starts one of the five entities of \<open>html.escape\<close>. So no \<open><\<close>, \<open>>\<close> or
  \<open>&\<close> of the message is in the result as it was, and the markup is the inserted
  anchors and line breaks.
\<close>

theorem format_commit_message_markup:
  \<open>lt \<notin> set (html_escape msg) \<and> gt \<notin> set (html_escape msg) \<and>
   (\<forall>t. suffix (amp # t) (html_escape msg) \<longrightarrow>
      (\<exists>p\<in>set [u ''&amp;'', u ''&lt;'', u ''&gt;'', u ''&quot;'', u ''&#x27;'']. prefix p (amp # t))) \<and>
   (\<forall>t. suffix (lt # t) (format_commit_message msg) \<longrightarrow>
      (\<exists>p\<in>set [u ''<a href="'', u ''</a>'', u ''<br>'']. prefix p (lt # t))) \<and>
   (\<forall>q. prefix (q @ [gt]) (format_commit_message msg) \<longrightarrow>
      (\<exists>p\<in>set [u ''"'', u ''</a'', u ''<br'']. suffix p q)) \<and>
   (\<forall>t. suffix (amp # t) (format_commit_message msg) \<longrightarrow>
      (\<exists>p\<in>set [u ''&amp;'', u ''&lt;'', u ''&gt;'', u ''&quot;'', u ''&#x27;'']. prefix p (amp # t)))\<close>
  using html_escape_free[of msg] html_escape_amp[of msg] format_commit_message_tags[of msg]
  unfolding opens_with_def closed_by_def tag_starts_def tag_ends_def entities_def
  by blast

lemma example_message:
  \<open>format_commit_message (u ''a<b & see https://x.io/p?a=1&b=2 #7
ok'') =
   u ''a&lt;b &amp; see <a href="https://x.io/p?a=1" target="_blank" rel="noopener">https://x.io/p?a=1</a>&amp;b=2 <a href="https://github.com/bmadhusu/tools/issues/7">#7</a><br>
ok''\<close>
  by (simp add: format_commit_message_def html_escape_def escape_char_def match_url_def opt_s_def
      link_char_def url_anchor_def match_issue_def issue_anchor_def GITHUB_REPO_def br_newline_def
      is_digit_def nd_ranges_def isspace_def u_def lt_def gt_def amp_def Let_def)

theorem format_commit_message_markup_witness:
  \<open>format_commit_message (u ''a<b & see https://x.io/p?a=1&b=2 #7
ok'') =
   u ''a&lt;b &amp; see <a href="https://x.io/p?a=1" target="_blank" rel="noopener">https://x.io/p?a=1</a>&amp;b=2 <a href="https://github.com/bmadhusu/tools/issues/7">#7</a><br>
ok'' \<and>
   (\<exists>p\<in>set [u ''<a href="'', u ''</a>'', u ''<br>'']. prefix p (lt # u ''br>
ok'')) \<and>
   (\<exists>p\<in>set [u ''"'', u ''</a'', u ''<br''].
      suffix p (u ''a&lt;b &amp; see <a href="https://x.io/p?a=1" target="_blank" rel="noopener"'')) \<and>
   (\<exists>p\<in>set [u ''&amp;'', u ''&lt;'', u ''&gt;'', u ''&quot;'', u ''&#x27;''].
      prefix p (amp # u ''amp;b=2 <a href="https://github.com/bmadhusu/tools/issues/7">#7</a><br>
ok''))\<close>
proof -
  let ?r = \<open>u ''a&lt;b &amp; see <a href="https://x.io/p?a=1" target="_blank" rel="noopener">https://x.io/p?a=1</a>&amp;b=2 <a href="https://github.com/bmadhusu/tools/issues/7">#7</a><br>
ok''\<close>
  from format_commit_message_markup[of \<open>u ''a<b & see https://x.io/p?a=1&b=2 #7
ok''\<close>]
  have o: \<open>\<forall>t. suffix (lt # t) ?r \<longrightarrow>
      (\<exists>p\<in>set [u ''<a href="'', u ''</a>'', u ''<br>'']. prefix p (lt # t))\<close>
    and c: \<open>\<forall>q. prefix (q @ [gt]) ?r \<longrightarrow> (\<exists>p\<in>set [u ''"'', u ''</a'', u ''<br'']. suffix p q)\<close>
    and a: \<open>\<forall>t. suffix (amp # t) ?r \<longrightarrow>
      (\<exists>p\<in>set [u ''&amp;'', u ''&lt;'', u ''&gt;'', u ''&quot;'', u ''&#x27;'']. prefix p (amp # t))\<close>
    unfolding example_message by blast+
  have "suffix (lt # u ''br>
ok'') ?r"
    by (simp add: suffix_to_prefix u_def lt_def)
  with o have 1: \<open>\<exists>p\<in>set [u ''<a href="'', u ''</a>'', u ''<br>'']. prefix p (lt # u ''br>
ok'')\<close>
    by blast
  have \<open>prefix (u ''a&lt;b &amp; see <a href="https://x.io/p?a=1" target="_blank" rel="noopener"'' @ [gt]) ?r\<close>
    by (simp add: u_def gt_def)
  with c have 2: \<open>\<exists>p\<in>set [u ''"'', u ''</a'', u ''<br''].
      suffix p (u ''a&lt;b &amp; see <a href="https://x.io/p?a=1" target="_blank" rel="noopener"'')\<close>
    by blast
  have \<open>suffix (amp # u ''amp;b=2 <a href="https://github.com/bmadhusu/tools/issues/7">#7</a><br>
ok'') ?r\<close>
    by (simp add: suffix_to_prefix u_def amp_def)
  with a have 3: \<open>\<exists>p\<in>set [u ''&amp;'', u ''&lt;'', u ''&gt;'', u ''&quot;'', u ''&#x27;''].
      prefix p (amp # u ''amp;b=2 <a href="https://github.com/bmadhusu/tools/issues/7">#7</a><br>
ok'')\<close>
    by blast
  from example_message 1 2 3 show ?thesis by blast
qed


end
